theory Spec2Isabelle
  imports Main "HOL-Library.Word"
begin

section \<open>The quiz server of \<open>server.js\<close>\<close>

text \<open>
  The server keeps one global registry \<open>sessions\<close> (a plain JavaScript object keyed by the
  session code), reacts to JSON messages that arrive on WebSocket connections, and runs one
  keep-alive timer. The embedding makes the global state a record, every handler a function
  from the state to the new state and the list of method calls it makes on connections, and
  the choices of the environment (the random bytes, the clock) explicit arguments. A handler
  that throws has no result: nothing in the source catches the \<open>TypeError\<close>, and the
  process ends with it.

  Messages are JSON objects with a \<open>type\<close> and a \<open>payload\<close> whose fields have the types that
  the comment at the head of the source documents: codes, names, ids and texts are strings
  (any strings, also names such as \<open>constructor\<close> that every object inherits), the option
  count and the selected option are numbers. Strings are lists of characters.
\<close>

subsection \<open>JavaScript objects used as dictionaries\<close>

text \<open>
  \<open>answers\<close> and \<open>students\<close> are objects whose keys are enumerated (\<open>Object.values\<close>,
  \<open>Object.entries\<close>, \<open>for ... in\<close>). The enumeration order of own string keys is: first the
  keys that are array indices (canonical decimal numerals below \<open>2^32 - 1\<close>) in ascending
  numeric order, then all other keys in the order of their creation. An object is modelled
  as the list of its entries in enumeration order.
\<close>

type_synonym 'v obj = "(string \<times> 'v) list"

definition is_digit :: "char \<Rightarrow> bool" where
  "is_digit ch = (ch \<in> set ''0123456789'')"

definition digit_val :: "char \<Rightarrow> nat" where
  "digit_val ch = length (takeWhile (\<lambda>d. d \<noteq> ch) ''0123456789'')"

definition decimal_val :: "string \<Rightarrow> nat" where
  "decimal_val s = foldl (\<lambda>n ch. 10 * n + digit_val ch) 0 s"

fun dec_digits :: "nat \<Rightarrow> string" where
  "dec_digits n =
     (if n < 10 then [''0123456789'' ! n] else dec_digits (n div 10) @ [''0123456789'' ! (n mod 10)])"

declare dec_digits.simps [simp del]

text \<open>A key is an array index when it is the decimal numeral of a number below \<open>2^32 - 1\<close>:
  the string that \<open>String\<close> gives for its own numeric value.\<close>

definition array_index :: "string \<Rightarrow> nat option" where
  "array_index k =
     (if k \<noteq> [] \<and> list_all is_digit k \<and> decimal_val k < 4294967295
         \<and> dec_digits (decimal_val k) = k
      then Some (decimal_val k) else None)"

definition key_before :: "string \<Rightarrow> string \<Rightarrow> bool" where
  "key_before k k' =
     (case array_index k of
        None \<Rightarrow> False
      | Some n \<Rightarrow> (case array_index k' of None \<Rightarrow> True | Some n' \<Rightarrow> n < n'))"

fun obj_insert :: "string \<Rightarrow> 'v \<Rightarrow> 'v obj \<Rightarrow> 'v obj" where
  "obj_insert k v [] = [(k, v)]"
| "obj_insert k v ((k', v') # kvs) =
     (if key_before k k' then (k, v) # (k', v') # kvs else (k', v') # obj_insert k v kvs)"

fun obj_update :: "string \<Rightarrow> 'v \<Rightarrow> 'v obj \<Rightarrow> 'v obj" where
  "obj_update k v [] = []"
| "obj_update k v ((k', v') # kvs) =
     (if k' = k then (k', v) # kvs else (k', v') # obj_update k v kvs)"

definition obj_keys :: "'v obj \<Rightarrow> string list" where
  "obj_keys ob = map fst ob"

definition obj_values :: "'v obj \<Rightarrow> 'v list" where
  "obj_values ob = map snd ob"

definition obj_get :: "'v obj \<Rightarrow> string \<Rightarrow> 'v option" where
  "obj_get ob k = map_of ob k"

text \<open>\<open>ob[k] = v\<close>: an existing key keeps its place, a new key takes its place in the order.\<close>

definition obj_set :: "string \<Rightarrow> 'v \<Rightarrow> 'v obj \<Rightarrow> 'v obj" where
  "obj_set k v ob = (if k \<in> set (obj_keys ob) then obj_update k v ob else obj_insert k v ob)"

subsection \<open>Strings\<close>

definition hex_digit :: "nat \<Rightarrow> char" where
  "hex_digit n = ''0123456789abcdef'' ! (n mod 16)"

definition hex_byte :: "8 word \<Rightarrow> string" where
  "hex_byte b = [hex_digit (unat b div 16), hex_digit (unat b mod 16)]"

type_synonym bytes3 = "8 word \<times> 8 word \<times> 8 word"

text \<open>\<open>buf.toString("hex")\<close> of the three bytes that \<open>crypto.randomBytes(3)\<close> returns.\<close>

definition toString_hex :: "bytes3 \<Rightarrow> string" where
  "toString_hex buf = (case buf of (b0, b1, b2) \<Rightarrow> hex_byte b0 @ hex_byte b1 @ hex_byte b2)"

definition toUpperCase_char :: "char \<Rightarrow> char" where
  "toUpperCase_char ch =
     (case map_of (zip ''abcdefghijklmnopqrstuvwxyz'' ''ABCDEFGHIJKLMNOPQRSTUVWXYZ'') ch of
        None \<Rightarrow> ch
      | Some up \<Rightarrow> up)"

definition toUpperCase :: "string \<Rightarrow> string" where
  "toUpperCase s = map toUpperCase_char s"

definition generateSessionCode :: "bytes3 \<Rightarrow> string" where
  "generateSessionCode buf = toUpperCase (toString_hex buf)"

text \<open>
  A number in a payload is an integer that a double holds exactly and that \<open>String\<close> prints
  in plain decimal: a signed integer of 54 bits. (Fractions and numbers beyond \<open>2^53\<close> are
  not option indices.) \<open>String_num\<close> is \<open>String(n)\<close> of such an integer, and of the length
  of an array.
\<close>

type_synonym number = "54 word"

definition String_num :: "int \<Rightarrow> string" where
  "String_num i = (if i < 0 then CHR ''-'' # dec_digits (nat (- i)) else dec_digits (nat i))"


definition padStart2 :: "string \<Rightarrow> string" where
  "padStart2 s = replicate (2 - length s) (CHR ''0'') @ s"

record date =
  getFullYear :: nat
  getMonth :: nat
  getDate :: nat
  getHours :: nat
  getMinutes :: nat
  getSeconds :: nat

definition getTimestampString :: "date \<Rightarrow> string" where
  "getTimestampString d =
     (let yyyy = getFullYear d;
          mm = padStart2 (String_num (int (getMonth d + 1)));
          dd = padStart2 (String_num (int (getDate d)));
          HH = padStart2 (String_num (int (getHours d)));
          MM = padStart2 (String_num (int (getMinutes d)));
          SS = padStart2 (String_num (int (getSeconds d)))
      in String_num (int yyyy) @ mm @ dd @ ''-'' @ HH @ MM @ SS)"

text \<open>\<open>s || ""\<close> on a string and \<open>n || ""\<close> on a number or \<open>null\<close>: the falsy values
  (\<open>""\<close>, \<open>0\<close>, \<open>null\<close>) are replaced by the empty string.\<close>

datatype cell = Num int | Str string

definition str_or_empty :: "string \<Rightarrow> string" where
  "str_or_empty s = (if s = [] then [] else s)"

definition num_or_empty :: "number option \<Rightarrow> cell" where
  "num_or_empty v = (case v of None \<Rightarrow> Str [] | Some n \<Rightarrow> if n = 0 then Str [] else Num (sint n))"

definition String_cell :: "cell \<Rightarrow> string" where
  "String_cell val = (case val of Num n \<Rightarrow> String_num n | Str s \<Rightarrow> s)"

definition dquote :: char where
  "dquote = CHR 0x22"

text \<open>\<open>s.replace(/"/g, '""')\<close>\<close>

definition replace_quotes :: "string \<Rightarrow> string" where
  "replace_quotes s = concat (map (\<lambda>ch. if ch = dquote then [dquote, dquote] else [ch]) s)"

fun join_str :: "string \<Rightarrow> string list \<Rightarrow> string" where
  "join_str sep [] = []"
| "join_str sep [x] = x"
| "join_str sep (x # y # ys) = x @ sep @ join_str sep (y # ys)"

subsection \<open>What every object inherits\<close>

text \<open>
  \<open>sessions\<close>, \<open>session.students\<close> and \<open>question.answers\<close> are object literals. A lookup
  \<open>ob[k]\<close> of a name \<open>k\<close> that is no own key of \<open>ob\<close> finds what \<open>Object.prototype\<close> holds
  under \<open>k\<close>: a function for \<open>constructor\<close> and for the names of its methods,
  \<open>Object.prototype\<close> itself for \<open>__proto__\<close>, and a value for a name that the program has
  assigned there; otherwise \<open>undefined\<close>. \<open>Object.keys\<close>, \<open>Object.values\<close>, \<open>Object.entries\<close>
  and \<open>JSON.stringify\<close> see own keys only; \<open>for ... in\<close> enumerates the own keys and then the
  inherited names that the program has assigned.
\<close>

datatype pval = PNum number | PStr string

definition builtin_names :: "string list" where
  "builtin_names = [''constructor'', ''__defineGetter__'', ''__defineSetter__'', ''hasOwnProperty'',
     ''__lookupGetter__'', ''__lookupSetter__'', ''isPrototypeOf'', ''propertyIsEnumerable'',
     ''toString'', ''valueOf'', ''toLocaleString'']"

datatype inherited = Object_prototype | Builtin_function | Primitive pval | Undefined

text \<open>\<open>inherited_prop proto k\<close>: what \<open>ob[k]\<close> finds when \<open>k\<close> is no own key of \<open>ob\<close>; \<open>proto\<close>
  holds the properties that the program has assigned on \<open>Object.prototype\<close>.\<close>

definition inherited_prop :: "pval obj \<Rightarrow> string \<Rightarrow> inherited" where
  "inherited_prop proto k =
     (if k = ''__proto__'' then Object_prototype
      else if k \<in> set builtin_names then Builtin_function
      else (case obj_get proto k of None \<Rightarrow> Undefined | Some v \<Rightarrow> Primitive v))"

fun truthy :: "inherited \<Rightarrow> bool" where
  "truthy Object_prototype = True"
| "truthy Builtin_function = True"
| "truthy (Primitive (PNum n)) = (n \<noteq> 0)"
| "truthy (Primitive (PStr s)) = (s \<noteq> [])"
| "truthy Undefined = False"

text \<open>
  \<open>x.field = v\<close> where \<open>x\<close> was found on the prototype chain: on \<open>Object.prototype\<close> the
  assignment creates or overwrites the property; on a function it adds a property to that
  function, which nothing reads; on a number or string it is ignored (the code is not in
  strict mode).
\<close>

definition assign_inherited :: "inherited \<Rightarrow> string \<Rightarrow> pval \<Rightarrow> pval obj \<Rightarrow> pval obj" where
  "assign_inherited x field v proto =
     (case x of Object_prototype \<Rightarrow> obj_set field v proto | _ \<Rightarrow> proto)"

text \<open>\<open>x || ""\<close> on what a lookup on a number or string finds on \<open>Object.prototype\<close>.\<close>

definition pval_or_empty :: "pval option \<Rightarrow> cell" where
  "pval_or_empty v =
     (case v of
        None \<Rightarrow> Str []
      | Some (PNum n) \<Rightarrow> if n = 0 then Str [] else Num (sint n)
      | Some (PStr s) \<Rightarrow> Str (str_or_empty s))"

subsection \<open>Data model\<close>

type_synonym conn = nat

datatype stage = WAITING | MCQ | EXPLANATION | STOPPED | DONE

record answer =
  username :: string
  mcqAnswer :: "number option"
  explanation :: string

record question =
  questionNumber :: nat
  questionText :: string
  mcqOptions :: number
  q_stage :: stage
  answers :: "answer obj"

record student =
  stu_username :: string
  stu_ws :: conn

record session =
  teacher :: "conn option"
  stage :: stage
  currentQuestionIndex :: int
  questions :: "question list"
  students :: "student obj"

datatype ready_state = OPEN | CLOSING | CLOSED

text \<open>
  The state of the process: the own entries of the registry, the properties assigned on
  \<open>Object.prototype\<close>, the set \<open>wss.clients\<close> in insertion order, the \<open>readyState\<close> and
  \<open>isAlive\<close> fields of the connection objects, and the keep-alive timer (\<open>keepAliveInterval\<close>
  is true until \<open>clearInterval\<close>).
\<close>

record server =
  sessions :: "string \<rightharpoonup> session"
  prototype :: "pval obj"
  clients :: "conn list"
  readyState :: "conn \<Rightarrow> ready_state"
  isAlive :: "conn \<Rightarrow> bool"
  totalUptime :: nat
  keepAliveInterval :: bool

datatype message =
    TEACHER_CREATE_SESSION
  | TEACHER_START_MCQ string string number
  | TEACHER_NEXT_EXPLANATION string
  | TEACHER_STOP_QUIZ string
  | TEACHER_CLOSE_PAGE string
  | TEACHER_DOWNLOAD_CSV string
  | TEACHER_REJOIN_SESSION string
  | STUDENT_JOIN_SESSION string string
  | STUDENT_SUBMIT_MCQ string string number
  | STUDENT_EXPLANATION_UPDATE string string string
  | UNKNOWN_TYPE
  | INVALID_JSON

datatype event =
    SESSION_CREATED string
  | MCQ_STARTED string number
  | SHOW_EXPLANATION_INPUT
  | QUIZ_STOPPED
  | JOINED_SESSION string string stage
  | TEACHER_VIEW_UPDATE string stage string number "answer list" "string list"
  | CSV_DATA string string
  | ERROR string

text \<open>The method calls that the server makes on connection objects.\<close>

datatype effect = Send conn event | Close conn | Terminate conn | Ping conn

text \<open>What a handler draws from its environment: \<open>crypto.randomBytes(3)\<close> and \<open>new Date()\<close>.\<close>

record env =
  randomBytes :: bytes3
  now :: date

subsection \<open>Helpers of the source\<close>

text \<open>
  \<open>broadcastToSession\<close>, \<open>getCurrentQuestion\<close> and \<open>broadcastTeacherView\<close> look the code up
  again. The handlers below call them only with a code under which the registry has an own
  entry; what a handler does with a code that finds an inherited value is written out in
  the handler.
\<close>

definition sendJSON :: "server \<Rightarrow> conn \<Rightarrow> event \<Rightarrow> effect list" where
  "sendJSON st ws data = (if readyState st ws = OPEN then [Send ws data] else [])"

definition broadcastToSession :: "server \<Rightarrow> string \<Rightarrow> event \<Rightarrow> effect list" where
  "broadcastToSession st sessionCode data =
     (case sessions st sessionCode of
        None \<Rightarrow> []
      | Some session \<Rightarrow>
          (case teacher session of None \<Rightarrow> [] | Some t \<Rightarrow> sendJSON st t data) @
          concat (map (\<lambda>stu. sendJSON st (stu_ws stu) data) (obj_values (students session))))"

text \<open>The body of \<open>getCurrentQuestion\<close> on the session object it has looked up.\<close>

definition current_question :: "session \<Rightarrow> question option" where
  "current_question session =
     (let idx = currentQuestionIndex session in
      if idx < 0 \<or> idx \<ge> int (length (questions session)) then None
      else Some (questions session ! nat idx))"

definition getCurrentQuestion :: "server \<Rightarrow> string \<Rightarrow> question option" where
  "getCurrentQuestion st sessionCode =
     (case sessions st sessionCode of None \<Rightarrow> None | Some session \<Rightarrow> current_question session)"

text \<open>Writing through the reference that \<open>getCurrentQuestion\<close> returned.\<close>

definition set_current :: "question \<Rightarrow> session \<Rightarrow> session" where
  "set_current q session =
     session\<lparr>questions := (questions session)[nat (currentQuestionIndex session) := q]\<rparr>"

definition broadcastTeacherView :: "server \<Rightarrow> string \<Rightarrow> effect list" where
  "broadcastTeacherView st sessionCode =
     (case sessions st sessionCode of
        None \<Rightarrow> []
      | Some session \<Rightarrow>
          (case teacher session of
             None \<Rightarrow> []
           | Some t \<Rightarrow>
               (let currentQ = getCurrentQuestion st sessionCode;
                    questionText' = (case currentQ of None \<Rightarrow> [] | Some q \<Rightarrow> questionText q);
                    mcqOptions' = (case currentQ of None \<Rightarrow> 0 | Some q \<Rightarrow> mcqOptions q);
                    answersArr = (case currentQ of None \<Rightarrow> [] | Some q \<Rightarrow> obj_values (answers q));
                    studentNames = map stu_username (obj_values (students session))
                in sendJSON st t
                     (TEACHER_VIEW_UPDATE sessionCode (stage session) questionText' mcqOptions'
                        answersArr studentNames))))"

definition csv_header :: "cell list" where
  "csv_header = [Str ''Question #'', Str ''Question Text'', Str ''Username'', Str ''MCQ Answer'',
     Str ''Explanation'']"

definition csv_row :: "question \<Rightarrow> answer \<Rightarrow> cell list" where
  "csv_row q ans =
     [Num (int (questionNumber q)), Str (questionText q), Str (str_or_empty (username ans)),
      num_or_empty (mcqAnswer ans), Str (str_or_empty (explanation ans))]"

definition csv_field :: "cell \<Rightarrow> string" where
  "csv_field val = [dquote] @ replace_quotes (String_cell val) @ [dquote]"

text \<open>
  \<open>for (const studentId in q.answers)\<close>: the body runs for the own entries of \<open>q.answers\<close>
  and then for every name assigned on \<open>Object.prototype\<close> that is no own key. For such a
  name \<open>ans\<close> is a number or a string, and its three fields are looked up on
  \<open>Object.prototype\<close>.
\<close>

definition inherited_keys :: "pval obj \<Rightarrow> 'v obj \<Rightarrow> string list" where
  "inherited_keys proto ob = filter (\<lambda>k. k \<notin> set (obj_keys ob)) (obj_keys proto)"

definition inherited_row :: "pval obj \<Rightarrow> question \<Rightarrow> cell list" where
  "inherited_row proto q =
     [Num (int (questionNumber q)), Str (questionText q), pval_or_empty (obj_get proto ''username''),
      pval_or_empty (obj_get proto ''mcqAnswer''), pval_or_empty (obj_get proto ''explanation'')]"

definition for_in_rows :: "pval obj \<Rightarrow> question \<Rightarrow> cell list list \<Rightarrow> cell list list" where
  "for_in_rows proto q rows =
     fold (\<lambda>studentId rows. rows @ [inherited_row proto q]) (inherited_keys proto (answers q))
       (fold (\<lambda>(studentId, ans) rows. rows @ [csv_row q ans]) (answers q) rows)"

definition generateCSV :: "pval obj \<Rightarrow> session \<Rightarrow> string" where
  "generateCSV proto session =
     (let rows = fold (for_in_rows proto) (questions session) [csv_header]
      in join_str [CHR 0x0A] (map (\<lambda>r. join_str '','' (map csv_field r)) rows))"

text \<open>\<open>ws.close()\<close> and \<open>ws.terminate()\<close> as they change \<open>readyState\<close>.\<close>

definition close_ws :: "conn \<Rightarrow> server \<Rightarrow> server" where
  "close_ws ws st =
     (if readyState st ws = OPEN then st\<lparr>readyState := (readyState st)(ws := CLOSING)\<rparr> else st)"

definition terminate_ws :: "conn \<Rightarrow> server \<Rightarrow> server" where
  "terminate_ws ws st =
     (if readyState st ws = CLOSED then st else st\<lparr>readyState := (readyState st)(ws := CLOSING)\<rparr>)"

subsection \<open>The message handlers\<close>

text \<open>
  One definition for each branch of the \<open>if ... else if\<close> chain of the \<open>message\<close> listener.
  \<open>ws\<close> is the connection on which the message arrived. Objects are mutated in place in the
  source; here the local \<open>session\<close> is threaded through the assignments (\<open>s1\<close>, \<open>s2\<close>, ...)
  and written back to the registry before the broadcasts read it.

  The result of a handler is the new state and the method calls it made, or \<open>None\<close> when it
  throws. A handler throws when \<open>sessions[sessionCode]\<close> is no own entry but a truthy
  inherited value: that value passes \<open>if (!session)\<close>, and the handler goes on to read
  \<open>session.questions.length\<close>, \<open>Object.values(session.students)\<close> or
  \<open>session.students[studentId]\<close> where \<open>session.questions\<close> and \<open>session.students\<close> are
  \<open>undefined\<close>, which is a \<open>TypeError\<close> before anything is sent. Nothing catches it.
  (The only names that the program ever assigns on \<open>Object.prototype\<close> are \<open>mcqAnswer\<close> and
  \<open>explanation\<close>, see \<open>codes_inv\<close> below; so an inherited value has no \<open>questions\<close>,
  \<open>students\<close> or \<open>teacher\<close>.)
\<close>

definition new_session :: "conn \<Rightarrow> session" where
  "new_session ws =
     \<lparr>teacher = Some ws, stage = WAITING, currentQuestionIndex = - 1, questions = [], students = []\<rparr>"

definition on_TEACHER_CREATE_SESSION :: "conn \<Rightarrow> env \<Rightarrow> server \<Rightarrow> (server \<times> effect list) option" where
  "on_TEACHER_CREATE_SESSION ws e st =
     (let code = generateSessionCode (randomBytes e);
          st' = st\<lparr>sessions := (sessions st)(code \<mapsto> new_session ws)\<rparr>
      in Some (st', sendJSON st' ws (SESSION_CREATED code)))"

definition empty_answer :: "string \<Rightarrow> answer" where
  "empty_answer name = \<lparr>username = name, mcqAnswer = None, explanation = []\<rparr>"

definition add_answer_slots :: "student obj \<Rightarrow> question \<Rightarrow> question" where
  "add_answer_slots studs questionObj =
     fold (\<lambda>(stuId, stu) q. q\<lparr>answers := obj_set stuId (empty_answer (stu_username stu)) (answers q)\<rparr>)
       studs questionObj"

definition start_mcq :: "string \<Rightarrow> number \<Rightarrow> session \<Rightarrow> session" where
  "start_mcq qText options session =
     (let s1 = session\<lparr>stage := MCQ\<rparr>;
          s2 = (if currentQuestionIndex s1 \<ge> 0
                then (case current_question s1 of
                        None \<Rightarrow> s1
                      | Some prevQ \<Rightarrow>
                          if q_stage prevQ = EXPLANATION then set_current (prevQ\<lparr>q_stage := DONE\<rparr>) s1
                          else s1)
                else s1);
          newQnum = length (questions s2) + 1;
          questionObj = \<lparr>questionNumber = newQnum, questionText = str_or_empty qText,
                         mcqOptions = options, q_stage = MCQ, answers = []\<rparr>;
          s3 = s2\<lparr>questions := questions s2 @ [questionObj]\<rparr>;
          s4 = s3\<lparr>currentQuestionIndex := int (length (questions s3)) - 1\<rparr>
      in s4\<lparr>questions := (questions s4)[length (questions s4) - 1 :=
                add_answer_slots (students s4) questionObj]\<rparr>)"

definition on_TEACHER_START_MCQ ::
  "string \<Rightarrow> string \<Rightarrow> number \<Rightarrow> server \<Rightarrow> (server \<times> effect list) option" where
  "on_TEACHER_START_MCQ sessionCode qText options st =
     (case sessions st sessionCode of
        None \<Rightarrow> if truthy (inherited_prop (prototype st) sessionCode) then None else Some (st, [])
      | Some session \<Rightarrow>
          (let st' = st\<lparr>sessions := (sessions st)(sessionCode \<mapsto> start_mcq qText options session)\<rparr>
           in Some (st', broadcastToSession st' sessionCode (MCQ_STARTED (str_or_empty qText) options)
                         @ broadcastTeacherView st' sessionCode)))"

definition next_explanation :: "session \<Rightarrow> session" where
  "next_explanation session =
     (let s1 = session\<lparr>stage := EXPLANATION\<rparr>
      in case current_question s1 of
           None \<Rightarrow> s1
         | Some curQ \<Rightarrow>
             if q_stage curQ = MCQ then set_current (curQ\<lparr>q_stage := EXPLANATION\<rparr>) s1 else s1)"

definition on_TEACHER_NEXT_EXPLANATION :: "string \<Rightarrow> server \<Rightarrow> (server \<times> effect list) option" where
  "on_TEACHER_NEXT_EXPLANATION sessionCode st =
     (case sessions st sessionCode of
        None \<Rightarrow> if truthy (inherited_prop (prototype st) sessionCode) then None else Some (st, [])
      | Some session \<Rightarrow>
          (let st' = st\<lparr>sessions := (sessions st)(sessionCode \<mapsto> next_explanation session)\<rparr>
           in Some (st', broadcastToSession st' sessionCode SHOW_EXPLANATION_INPUT
                         @ broadcastTeacherView st' sessionCode)))"

text \<open>\<open>Object.values(session.students).forEach((stu) => stu.ws.close())\<close>\<close>

definition close_students :: "session \<Rightarrow> server \<Rightarrow> server \<times> effect list" where
  "close_students session st =
     (fold (\<lambda>stu. close_ws (stu_ws stu)) (obj_values (students session)) st,
      map (\<lambda>stu. Close (stu_ws stu)) (obj_values (students session)))"

definition on_TEACHER_STOP_QUIZ :: "string \<Rightarrow> server \<Rightarrow> (server \<times> effect list) option" where
  "on_TEACHER_STOP_QUIZ sessionCode st =
     (case sessions st sessionCode of
        None \<Rightarrow> if truthy (inherited_prop (prototype st) sessionCode) then None else Some (st, [])
      | Some session \<Rightarrow>
          (let s1 = session\<lparr>stage := STOPPED\<rparr>;
               st1 = st\<lparr>sessions := (sessions st)(sessionCode \<mapsto> s1)\<rparr>;
               sent = broadcastToSession st1 sessionCode QUIZ_STOPPED;
               (st2, closed) = close_students s1 st1
           in Some (st2, sent @ closed @ broadcastTeacherView st2 sessionCode)))"

definition on_TEACHER_CLOSE_PAGE :: "string \<Rightarrow> server \<Rightarrow> (server \<times> effect list) option" where
  "on_TEACHER_CLOSE_PAGE sessionCode st =
     (case sessions st sessionCode of
        None \<Rightarrow> if truthy (inherited_prop (prototype st) sessionCode) then None else Some (st, [])
      | Some session \<Rightarrow>
          (let s1 = session\<lparr>stage := STOPPED\<rparr>;
               st1 = st\<lparr>sessions := (sessions st)(sessionCode \<mapsto> s1)\<rparr>;
               sent = broadcastToSession st1 sessionCode QUIZ_STOPPED;
               (st2, closed) = close_students s1 st1
           in Some (st2\<lparr>sessions := (sessions st2)(sessionCode := None)\<rparr>, sent @ closed)))"

definition on_TEACHER_DOWNLOAD_CSV ::
  "conn \<Rightarrow> env \<Rightarrow> string \<Rightarrow> server \<Rightarrow> (server \<times> effect list) option" where
  "on_TEACHER_DOWNLOAD_CSV ws e sessionCode st =
     (case sessions st sessionCode of
        None \<Rightarrow>
          if truthy (inherited_prop (prototype st) sessionCode) then None
          else Some (st, sendJSON st ws (ERROR ''No such session.''))
      | Some session \<Rightarrow>
          (let csvStr = generateCSV (prototype st) session;
               ts = getTimestampString (now e);
               filename = ''quiz_data_'' @ sessionCode @ ''_'' @ ts @ ''.csv''
           in Some (st, sendJSON st ws (CSV_DATA csvStr filename))))"

text \<open>
  Reattaching with a code that finds an inherited value: on a function and on
  \<open>Object.prototype\<close> the assignment of \<open>teacher\<close> succeeds and \<open>broadcastTeacherView\<close> throws
  in \<open>getCurrentQuestion\<close>; on a truthy number or string the assignment is ignored and
  \<open>broadcastTeacherView\<close> returns at \<open>!session.teacher\<close>.
\<close>

definition on_TEACHER_REJOIN_SESSION :: "conn \<Rightarrow> string \<Rightarrow> server \<Rightarrow> (server \<times> effect list) option" where
  "on_TEACHER_REJOIN_SESSION ws sessionCode st =
     (case sessions st sessionCode of
        Some session \<Rightarrow>
          (let st' = st\<lparr>sessions := (sessions st)(sessionCode \<mapsto> session\<lparr>teacher := Some ws\<rparr>)\<rparr>
           in Some (st', broadcastTeacherView st' sessionCode))
      | None \<Rightarrow>
          (case inherited_prop (prototype st) sessionCode of
             Object_prototype \<Rightarrow> None
           | Builtin_function \<Rightarrow> None
           | Primitive v \<Rightarrow>
               if truthy (Primitive v) then Some (st, [])
               else Some (st, sendJSON st ws (ERROR ''Session code not found''))
           | Undefined \<Rightarrow> Some (st, sendJSON st ws (ERROR ''Session code not found''))))"

definition join_session :: "conn \<Rightarrow> string \<Rightarrow> string \<Rightarrow> session \<Rightarrow> session" where
  "join_session ws studentId name session =
     (let s1 = session\<lparr>students :=
                 obj_set studentId \<lparr>stu_username = name, stu_ws = ws\<rparr> (students session)\<rparr>
      in case current_question s1 of
           None \<Rightarrow> s1
         | Some curQ \<Rightarrow>
             set_current (curQ\<lparr>answers := obj_set studentId (empty_answer name) (answers curQ)\<rparr>) s1)"

definition on_STUDENT_JOIN_SESSION ::
  "conn \<Rightarrow> env \<Rightarrow> string \<Rightarrow> string \<Rightarrow> server \<Rightarrow> (server \<times> effect list) option" where
  "on_STUDENT_JOIN_SESSION ws e sessionCode name st =
     (case sessions st sessionCode of
        None \<Rightarrow>
          if truthy (inherited_prop (prototype st) sessionCode) then None
          else Some (st, sendJSON st ws (ERROR ''Invalid session code''))
      | Some session \<Rightarrow>
          (let studentId = toString_hex (randomBytes e);
               s' = join_session ws studentId name session;
               st' = st\<lparr>sessions := (sessions st)(sessionCode \<mapsto> s')\<rparr>
           in Some (st', sendJSON st' ws (JOINED_SESSION studentId sessionCode (stage s'))
                         @ broadcastTeacherView st' sessionCode)))"

text \<open>
  The two submit handlers share their shape: return when there is no current question;
  when \<open>curQ.answers[studentId]\<close> is falsy, create the slot, returning when the id is no
  participant either; then assign one field of what \<open>curQ.answers[studentId]\<close> is.

  \<open>submit_mcq\<close> and \<open>submit_explanation\<close> are that path on the session when
  \<open>curQ.answers[studentId]\<close> is an own entry or finds nothing truthy (so that
  \<open>session.students[studentId]\<close>, when it is no own entry, finds the same falsy value);
  \<open>None\<close> stands for the early \<open>return\<close>. When the id is no own key and the lookup finds a
  truthy inherited value, no slot is created and the field is assigned on that value:
  that branch is in the handlers.
\<close>

definition submit_mcq :: "string \<Rightarrow> number \<Rightarrow> session \<Rightarrow> session option" where
  "submit_mcq studentId ans session =
     (case current_question session of
        None \<Rightarrow> None
      | Some curQ \<Rightarrow>
          (case (case obj_get (answers curQ) studentId of
                   Some slot \<Rightarrow> Some (answers curQ)
                 | None \<Rightarrow>
                     (case obj_get (students session) studentId of
                        None \<Rightarrow> None
                      | Some stuInfo \<Rightarrow>
                          Some (obj_set studentId (empty_answer (stu_username stuInfo)) (answers curQ))))
           of None \<Rightarrow> None
            | Some answers1 \<Rightarrow>
                (case obj_get answers1 studentId of
                   None \<Rightarrow> None
                 | Some slot \<Rightarrow>
                     Some (set_current
                       (curQ\<lparr>answers := obj_set studentId (slot\<lparr>mcqAnswer := Some ans\<rparr>) answers1\<rparr>)
                       session))))"

definition on_STUDENT_SUBMIT_MCQ ::
  "string \<Rightarrow> string \<Rightarrow> number \<Rightarrow> server \<Rightarrow> (server \<times> effect list) option" where
  "on_STUDENT_SUBMIT_MCQ sessionCode studentId ans st =
     (case sessions st sessionCode of
        None \<Rightarrow> if truthy (inherited_prop (prototype st) sessionCode) then None else Some (st, [])
      | Some session \<Rightarrow>
          (case current_question session of
             None \<Rightarrow> Some (st, [])
           | Some curQ \<Rightarrow>
               (let found = inherited_prop (prototype st) studentId
                in if obj_get (answers curQ) studentId = None \<and> truthy found
                   then (let st' = st\<lparr>prototype :=
                                     assign_inherited found ''mcqAnswer'' (PNum ans) (prototype st)\<rparr>
                         in Some (st', broadcastTeacherView st' sessionCode))
                   else (case submit_mcq studentId ans session of
                           None \<Rightarrow> Some (st, [])
                         | Some s' \<Rightarrow>
                             (let st' = st\<lparr>sessions := (sessions st)(sessionCode \<mapsto> s')\<rparr>
                              in Some (st', broadcastTeacherView st' sessionCode))))))"

definition submit_explanation :: "string \<Rightarrow> string \<Rightarrow> session \<Rightarrow> session option" where
  "submit_explanation studentId text session =
     (case current_question session of
        None \<Rightarrow> None
      | Some curQ \<Rightarrow>
          (case (case obj_get (answers curQ) studentId of
                   Some slot \<Rightarrow> Some (answers curQ)
                 | None \<Rightarrow>
                     (case obj_get (students session) studentId of
                        None \<Rightarrow> None
                      | Some stuInfo \<Rightarrow>
                          Some (obj_set studentId (empty_answer (stu_username stuInfo)) (answers curQ))))
           of None \<Rightarrow> None
            | Some answers1 \<Rightarrow>
                (case obj_get answers1 studentId of
                   None \<Rightarrow> None
                 | Some slot \<Rightarrow>
                     Some (set_current
                       (curQ\<lparr>answers := obj_set studentId (slot\<lparr>explanation := text\<rparr>) answers1\<rparr>)
                       session))))"

definition on_STUDENT_EXPLANATION_UPDATE ::
  "string \<Rightarrow> string \<Rightarrow> string \<Rightarrow> server \<Rightarrow> (server \<times> effect list) option" where
  "on_STUDENT_EXPLANATION_UPDATE sessionCode studentId text st =
     (case sessions st sessionCode of
        None \<Rightarrow> if truthy (inherited_prop (prototype st) sessionCode) then None else Some (st, [])
      | Some session \<Rightarrow>
          (case current_question session of
             None \<Rightarrow> Some (st, [])
           | Some curQ \<Rightarrow>
               (let found = inherited_prop (prototype st) studentId
                in if obj_get (answers curQ) studentId = None \<and> truthy found
                   then (let st' = st\<lparr>prototype :=
                                     assign_inherited found ''explanation'' (PStr text) (prototype st)\<rparr>
                         in Some (st', broadcastTeacherView st' sessionCode))
                   else (case submit_explanation studentId text session of
                           None \<Rightarrow> Some (st, [])
                         | Some s' \<Rightarrow>
                             (let st' = st\<lparr>sessions := (sessions st)(sessionCode \<mapsto> s')\<rparr>
                              in Some (st', broadcastTeacherView st' sessionCode))))))"

fun on_message :: "conn \<Rightarrow> env \<Rightarrow> message \<Rightarrow> server \<Rightarrow> (server \<times> effect list) option" where
  "on_message ws e INVALID_JSON st = Some (st, [])"
| "on_message ws e TEACHER_CREATE_SESSION st = on_TEACHER_CREATE_SESSION ws e st"
| "on_message ws e (TEACHER_START_MCQ sessionCode qText options) st =
     on_TEACHER_START_MCQ sessionCode qText options st"
| "on_message ws e (TEACHER_NEXT_EXPLANATION sessionCode) st =
     on_TEACHER_NEXT_EXPLANATION sessionCode st"
| "on_message ws e (TEACHER_STOP_QUIZ sessionCode) st = on_TEACHER_STOP_QUIZ sessionCode st"
| "on_message ws e (TEACHER_CLOSE_PAGE sessionCode) st = on_TEACHER_CLOSE_PAGE sessionCode st"
| "on_message ws e (TEACHER_DOWNLOAD_CSV sessionCode) st =
     on_TEACHER_DOWNLOAD_CSV ws e sessionCode st"
| "on_message ws e (TEACHER_REJOIN_SESSION sessionCode) st =
     on_TEACHER_REJOIN_SESSION ws sessionCode st"
| "on_message ws e (STUDENT_JOIN_SESSION sessionCode name) st =
     on_STUDENT_JOIN_SESSION ws e sessionCode name st"
| "on_message ws e (STUDENT_SUBMIT_MCQ sessionCode studentId ans) st =
     on_STUDENT_SUBMIT_MCQ sessionCode studentId ans st"
| "on_message ws e (STUDENT_EXPLANATION_UPDATE sessionCode studentId text) st =
     on_STUDENT_EXPLANATION_UPDATE sessionCode studentId text st"
| "on_message ws e UNKNOWN_TYPE st = Some (st, [])"

subsection \<open>Connections and the keep-alive timer\<close>

definition KEEP_ALIVE_INTERVAL :: nat where
  "KEEP_ALIVE_INTERVAL = 30000"

definition MAX_DURATION :: nat where
  "MAX_DURATION = 60 * 60000"

text \<open>The callback of \<open>wss.clients.forEach\<close> in the timer, for one connection.\<close>

definition probe :: "conn \<Rightarrow> server \<times> effect list \<Rightarrow> server \<times> effect list" where
  "probe ws acc =
     (case acc of (st, effs) \<Rightarrow>
        if \<not> isAlive st ws then (terminate_ws ws st, effs @ [Terminate ws])
        else (st\<lparr>isAlive := (isAlive st)(ws := False)\<rparr>, effs @ [Ping ws]))"

text \<open>
  One run of the \<open>setInterval\<close> callback. After \<open>clearInterval\<close> the callback is never
  invoked again: a tick of the cleared timer does nothing.
\<close>

definition on_tick :: "server \<Rightarrow> server \<times> effect list" where
  "on_tick st =
     (if \<not> keepAliveInterval st then (st, [])
      else
        (let st1 = st\<lparr>totalUptime := totalUptime st + KEEP_ALIVE_INTERVAL\<rparr>
         in if totalUptime st1 \<ge> MAX_DURATION
            then ((fold close_ws (clients st1) st1)\<lparr>keepAliveInterval := False\<rparr>,
                  map Close (clients st1))
            else fold probe (clients st1) (st1, [])))"

text \<open>
  What can happen to the process: a new connection, a message on a connection, a pong, the
  \<open>close\<close> event of a connection (which removes it from \<open>wss.clients\<close>), the timer.
\<close>

datatype input =
    Connection conn
  | Message conn env message
  | Pong conn
  | CloseEvent conn
  | Tick

fun step :: "input \<Rightarrow> server \<Rightarrow> (server \<times> effect list) option" where
  "step (Connection ws) st =
     Some (st\<lparr>clients := (if ws \<in> set (clients st) then clients st else clients st @ [ws]),
              readyState := (readyState st)(ws := OPEN),
              isAlive := (isAlive st)(ws := True)\<rparr>, [])"
| "step (Message ws e m) st = on_message ws e m st"
| "step (Pong ws) st = Some (st\<lparr>isAlive := (isAlive st)(ws := True)\<rparr>, [])"
| "step (CloseEvent ws) st =
     Some (st\<lparr>clients := removeAll ws (clients st), readyState := (readyState st)(ws := CLOSED)\<rparr>, [])"
| "step Tick st = Some (on_tick st)"

definition init :: server where
  "init = \<lparr>sessions = Map.empty, prototype = [], clients = [], readyState = (\<lambda>ws. CLOSED),
           isAlive = (\<lambda>ws. False), totalUptime = 0, keepAliveInterval = True\<rparr>"

text \<open>
  The process over a list of inputs. \<open>run\<close> gives the state after the last input, and
  \<open>None\<close> when a handler has thrown on the way; \<open>effects\<close> gives the method calls made up to
  the end of the list or to the throw.
\<close>

fun run :: "input list \<Rightarrow> server \<Rightarrow> server option" where
  "run [] st = Some st"
| "run (i # is) st = (case step i st of None \<Rightarrow> None | Some (st', out) \<Rightarrow> run is st')"

fun effects :: "input list \<Rightarrow> server \<Rightarrow> effect list" where
  "effects [] st = []"
| "effects (i # is) st = (case step i st of None \<Rightarrow> [] | Some (st', out) \<Rightarrow> out @ effects is st')"

inductive reachable :: "server \<Rightarrow> bool" where
  reachable_init: "reachable init"
| reachable_step: "reachable st \<Longrightarrow> step i st = Some (st', out) \<Longrightarrow> reachable st'"

section \<open>Notions used to state the properties\<close>

subsection \<open>Enumeration order of keys\<close>

text \<open>\<open>key_precedes k k'\<close>: \<open>k\<close> may be enumerated before \<open>k'\<close>. An array index precedes
  every key that is none, and array indices ascend.\<close>

definition key_precedes :: "string \<Rightarrow> string \<Rightarrow> bool" where
  "key_precedes k k' =
     (case array_index k' of
        None \<Rightarrow> True
      | Some n' \<Rightarrow> (case array_index k of None \<Rightarrow> False | Some n \<Rightarrow> n \<le> n'))"

definition js_key_order :: "string list \<Rightarrow> bool" where
  "js_key_order ks = sorted_wrt key_precedes ks"



subsection \<open>The export, row by row\<close>

definition csv_line :: "cell list \<Rightarrow> string" where
  "csv_line r = join_str '','' (map csv_field r)"


text \<open>The rows that \<open>for ... in\<close> adds to those of a question when \<open>Object.prototype\<close> has been
  assigned properties: one for each of them that is no key of the question's \<open>answers\<close>.\<close>

definition inherited_rows :: "pval obj \<Rightarrow> question \<Rightarrow> cell list list" where
  "inherited_rows proto q = map (\<lambda>k. inherited_row proto q) (inherited_keys proto (answers q))"

definition all_rows :: "pval obj \<Rightarrow> session \<Rightarrow> cell list list" where
  "all_rows proto session =
     concat (map (\<lambda>q. map (\<lambda>ans. csv_row q ans) (obj_values (answers q)) @ inherited_rows proto q)
       (questions session))"



text \<open>The session in which every record that selected option 0 is unanswered instead.\<close>

definition zero_to_null :: "answer \<Rightarrow> answer" where
  "zero_to_null ans = (if mcqAnswer ans = Some 0 then ans\<lparr>mcqAnswer := None\<rparr> else ans)"

definition zeros_to_null :: "session \<Rightarrow> session" where
  "zeros_to_null session =
     session\<lparr>questions :=
       map (\<lambda>q. q\<lparr>answers := map (\<lambda>kv. (fst kv, zero_to_null (snd kv))) (answers q)\<rparr>)
         (questions session)\<rparr>"

subsection \<open>Invariants of a session\<close>

definition index_inv :: "session \<Rightarrow> bool" where
  "index_inv s =
     (currentQuestionIndex s = int (length (questions s)) - 1 \<and>
      (\<forall>i < length (questions s). questionNumber (questions s ! i) = Suc i))"

definition keys_inv :: "session \<Rightarrow> bool" where
  "keys_inv s =
     (distinct (obj_keys (students s)) \<and>
      (\<forall>q \<in> set (questions s).
          distinct (obj_keys (answers q)) \<and>
          set (obj_keys (answers q)) \<subseteq> set (obj_keys (students s))) \<and>
      (\<forall>q. current_question s = Some q \<longrightarrow>
          set (obj_keys (students s)) \<subseteq> set (obj_keys (answers q))))"

definition order_inv :: "session \<Rightarrow> bool" where
  "order_inv s =
     (js_key_order (obj_keys (students s)) \<and>
      (\<forall>q \<in> set (questions s). js_key_order (obj_keys (answers q))))"

definition session_inv :: "session \<Rightarrow> bool" where
  "session_inv s = (index_inv s \<and> keys_inv s \<and> order_inv s)"

definition server_inv :: "server \<Rightarrow> bool" where
  "server_inv st = (\<forall>c s. sessions st c = Some s \<longrightarrow> session_inv s)"

text \<open>The codes of the registry have six characters, and the only names ever assigned on
  \<open>Object.prototype\<close> are the two fields that the submit handlers assign.\<close>

definition codes_inv :: "server \<Rightarrow> bool" where
  "codes_inv st =
     ((\<forall>c s. sessions st c = Some s \<longrightarrow> length c = 6) \<and>
      set (obj_keys (prototype st)) \<subseteq> {''mcqAnswer'', ''explanation''})"

subsection \<open>What the handlers can do to one session\<close>

text \<open>\<open>session_step s s'\<close>: some handler turns the session \<open>s\<close> of the registry into \<open>s'\<close>.\<close>

inductive session_step :: "session \<Rightarrow> session \<Rightarrow> bool" where
  step_start: "session_step s (start_mcq qText options s)"
| step_next: "session_step s (next_explanation s)"
| step_stop: "session_step s (s\<lparr>stage := STOPPED\<rparr>)"
| step_rejoin: "session_step s (s\<lparr>teacher := Some ws\<rparr>)"
| step_join: "session_step s (join_session ws studentId name s)"
| step_mcq: "submit_mcq studentId ans s = Some s' \<Longrightarrow> session_step s s'"
| step_explanation: "submit_explanation studentId text s = Some s' \<Longrightarrow> session_step s s'"

subsection \<open>Who was present for a question\<close>

text \<open>
  A history variable next to the state: for a session code and a position in \<open>questions\<close>,
  the ids of the participants who were in the session when the question at that position
  was created, who joined while it was the current question, or whose \<open>STUDENT_SUBMIT_MCQ\<close>
  was accepted for it. A creation under a code starts the history of that code afresh.
\<close>

type_synonym presence = "string \<Rightarrow> nat \<Rightarrow> string set"

definition note_present :: "string \<Rightarrow> nat \<Rightarrow> string set \<Rightarrow> presence \<Rightarrow> presence" where
  "note_present c i ids g = g(c := (g c)(i := g c i \<union> ids))"

fun involved_msg :: "env \<Rightarrow> message \<Rightarrow> server \<Rightarrow> presence \<Rightarrow> presence" where
  "involved_msg e TEACHER_CREATE_SESSION st g = g(generateSessionCode (randomBytes e) := (\<lambda>i. {}))"
| "involved_msg e (TEACHER_START_MCQ c qText options) st g =
     (case sessions st c of
        None \<Rightarrow> g
      | Some s \<Rightarrow> note_present c (length (questions s)) (set (obj_keys (students s))) g)"
| "involved_msg e (STUDENT_JOIN_SESSION c name) st g =
     (case sessions st c of
        None \<Rightarrow> g
      | Some s \<Rightarrow>
          (case current_question s of
             None \<Rightarrow> g
           | Some q \<Rightarrow> note_present c (nat (currentQuestionIndex s)) {toString_hex (randomBytes e)} g))"
| "involved_msg e (STUDENT_SUBMIT_MCQ c studentId ans) st g =
     (case sessions st c of
        None \<Rightarrow> g
      | Some s \<Rightarrow>
          (case submit_mcq studentId ans s of
             None \<Rightarrow> g
           | Some s' \<Rightarrow> note_present c (nat (currentQuestionIndex s)) {studentId} g))"
| "involved_msg e m st g = g"

fun involved :: "input \<Rightarrow> server \<Rightarrow> presence \<Rightarrow> presence" where
  "involved (Message ws e m) st g = involved_msg e m st g"
| "involved i st g = g"

fun run_noting :: "input list \<Rightarrow> server \<times> presence \<Rightarrow> (server \<times> presence) option" where
  "run_noting [] sg = Some sg"
| "run_noting (i # is) sg =
     (case step i (fst sg) of
        None \<Rightarrow> None
      | Some (st', out) \<Rightarrow> run_noting is (st', involved i (fst sg) (snd sg)))"

definition presence_inv :: "server \<Rightarrow> presence \<Rightarrow> bool" where
  "presence_inv st g =
     ((\<forall>c i. finite (g c i)) \<and>
      (\<forall>c s i. sessions st c = Some s \<longrightarrow> i < length (questions s) \<longrightarrow>
          set (obj_keys (answers (questions s ! i))) \<subseteq> g c i))"

subsection \<open>The order in which answer records were created\<close>








text \<open>The messages that assign on \<open>Object.prototype\<close>: a submit whose id is \<open>__proto__\<close>.\<close>

fun names_prototype :: "input \<Rightarrow> bool" where
  "names_prototype (Message ws e (STUDENT_SUBMIT_MCQ c studentId ans)) = (studentId = ''__proto__'')"
| "names_prototype (Message ws e (STUDENT_EXPLANATION_UPDATE c studentId text)) = (studentId = ''__proto__'')"
| "names_prototype i = False"

subsection \<open>Inputs between two ticks\<close>

text \<open>\<open>quiet ws i\<close>: the input \<open>i\<close> is neither a tick nor a pong, a connection event or a
  close event of the connection \<open>ws\<close>.\<close>

fun quiet :: "conn \<Rightarrow> input \<Rightarrow> bool" where
  "quiet ws (Connection ws') = (ws' \<noteq> ws)"
| "quiet ws (Message ws' e m) = True"
| "quiet ws (Pong ws') = (ws' \<noteq> ws)"
| "quiet ws (CloseEvent ws') = (ws' \<noteq> ws)"
| "quiet ws Tick = False"

text \<open>The effects that only the timer produces.\<close>

fun is_probe :: "effect \<Rightarrow> bool" where
  "is_probe (Ping ws) = True"
| "is_probe (Terminate ws) = True"
| "is_probe (Send ws ev) = False"
| "is_probe (Close ws) = False"

section \<open>Concrete runs\<close>

definition date0 :: date where
  "date0 = \<lparr>getFullYear = 2023, getMonth = 2, getDate = 10, getHours = 15, getMinutes = 5,
             getSeconds = 1\<rparr>"

definition env_A1B2C3 :: env where
  "env_A1B2C3 = \<lparr>randomBytes = (0xA1, 0xB2, 0xC3), now = date0\<rparr>"

definition env_abcdef :: env where
  "env_abcdef = \<lparr>randomBytes = (0xAB, 0xCD, 0xEF), now = date0\<rparr>"

definition env_123456 :: env where
  "env_123456 = \<lparr>randomBytes = (0x12, 0x34, 0x56), now = date0\<rparr>"

text \<open>A teacher on connection 0 creates session \<open>A1B2C3\<close>.\<close>

definition run_created :: "input list" where
  "run_created = [Connection 0, Connection 1, Connection 2, Message 0 env_A1B2C3 TEACHER_CREATE_SESSION]"

text \<open>The teacher starts a question; two participants join while it is current; the first
  to join is given the id \<open>abcdef\<close>, the second the id \<open>123456\<close>.\<close>

definition run_question :: "input list" where
  "run_question = run_created @ [Message 0 env_A1B2C3 (TEACHER_START_MCQ ''A1B2C3'' ''Q'' 4)]"

definition run_joined_A :: "input list" where
  "run_joined_A = run_question @ [Message 1 env_abcdef (STUDENT_JOIN_SESSION ''A1B2C3'' ''A'')]"

definition run_joined :: "input list" where
  "run_joined = run_joined_A @ [Message 2 env_123456 (STUDENT_JOIN_SESSION ''A1B2C3'' ''B'')]"

definition run_answered_zero :: "input list" where
  "run_answered_zero = run_joined @ [Message 1 env_abcdef (STUDENT_SUBMIT_MCQ ''A1B2C3'' ''abcdef'' 0)]"

definition run_stopped :: "input list" where
  "run_stopped = run_joined @ [Message 0 env_A1B2C3 (TEACHER_STOP_QUIZ ''A1B2C3'')]"

text \<open>Further runs: a second creation that draws the code \<open>A1B2C3\<close> again, and commands
  that arrive after the session was stopped.\<close>

definition run_overwrite :: "input list" where
  "run_overwrite = run_question @ [Message 1 env_A1B2C3 TEACHER_CREATE_SESSION]"

definition env_00ff00 :: env where
  "env_00ff00 = \<lparr>randomBytes = (0x00, 0xFF, 0x00), now = date0\<rparr>"

definition run_late_join :: "input list" where
  "run_late_join = run_stopped @ [Connection 3, Message 3 env_00ff00 (STUDENT_JOIN_SESSION ''A1B2C3'' ''C'')]"

definition run_restart :: "input list" where
  "run_restart = run_stopped @ [Message 0 env_A1B2C3 (TEACHER_START_MCQ ''A1B2C3'' ''Q2'' 2)]"

text \<open>Two connections and no session.\<close>

definition run_two_clients :: "input list" where
  "run_two_clients = [Connection 0, Connection 1]"

text \<open>The state after a run from the initial state.\<close>

definition after :: "input list \<Rightarrow> server" where
  "after is = the (run is init)"

text \<open>A submit under the id \<open>__proto__\<close> in the session with two participants, and a
  command that names the code \<open>constructor\<close>.\<close>

definition run_proto :: "input list" where
  "run_proto = run_joined @ [Message 1 env_abcdef (STUDENT_SUBMIT_MCQ ''A1B2C3'' ''__proto__'' 3)]"

definition run_constructor :: "input list" where
  "run_constructor = run_created @ [Message 0 env_A1B2C3 (TEACHER_START_MCQ ''constructor'' ''Q'' 4)]"


section \<open>Proofs\<close>

subsection \<open>Objects\<close>

lemma obj_keys_Nil: "obj_keys [] = []"
  by (simp add: obj_keys_def)

lemma obj_keys_Cons: "obj_keys (kv # ob) = fst kv # obj_keys ob"
  by (simp add: obj_keys_def)

lemma obj_keys_append: "obj_keys (ob @ ob') = obj_keys ob @ obj_keys ob'"
  by (simp add: obj_keys_def)

lemma keys_obj_insert: "set (obj_keys (obj_insert k v ob)) = insert k (set (obj_keys ob))"
proof (induction ob)
  case Nil
  show ?case by (simp add: obj_keys_Nil obj_keys_Cons)
next
  case (Cons a ob)
  obtain k' v' where a: "a = (k', v')" by (cases a)
  show ?case using Cons by (simp add: a obj_keys_Cons insert_commute)
qed

lemma keys_obj_update: "obj_keys (obj_update k v ob) = obj_keys ob"
proof (induction ob)
  case Nil
  show ?case by simp
next
  case (Cons a ob)
  obtain k' v' where a: "a = (k', v')" by (cases a)
  show ?case using Cons by (simp add: a obj_keys_Cons)
qed

lemma distinct_obj_insert:
  "k \<notin> set (obj_keys ob) \<Longrightarrow> distinct (obj_keys ob) \<Longrightarrow> distinct (obj_keys (obj_insert k v ob))"
proof (induction ob)
  case Nil
  then show ?case by (simp add: obj_keys_Nil obj_keys_Cons)
next
  case (Cons a ob)
  obtain k' v' where a: "a = (k', v')" by (cases a)
  have ih: "distinct (obj_keys (obj_insert k v ob))"
    using Cons by (simp add: obj_keys_Cons)
  have "k' \<notin> set (obj_keys (obj_insert k v ob))"
    using Cons.prems by (auto simp: keys_obj_insert a obj_keys_Cons)
  then show ?case using Cons.prems ih by (simp add: a obj_keys_Cons)
qed

lemma length_obj_insert: "length (obj_insert k v ob) = Suc (length ob)"
  by (induction ob) auto

lemma length_obj_update: "length (obj_update k v ob) = length ob"
  by (induction ob) auto

lemma keys_obj_set: "set (obj_keys (obj_set k v ob)) = insert k (set (obj_keys ob))"
  by (auto simp: obj_set_def keys_obj_insert keys_obj_update)

lemma distinct_obj_set: "distinct (obj_keys ob) \<Longrightarrow> distinct (obj_keys (obj_set k v ob))"
  by (simp add: obj_set_def keys_obj_update distinct_obj_insert)

lemma obj_set_present: "k \<in> set (obj_keys ob) \<Longrightarrow> obj_keys (obj_set k v ob) = obj_keys ob"
  by (simp add: obj_set_def keys_obj_update)

lemma obj_get_None_iff: "obj_get ob k = None \<longleftrightarrow> k \<notin> set (obj_keys ob)"
  by (simp add: obj_get_def obj_keys_def map_of_eq_None_iff)

lemma obj_get_Cons: "obj_get (kv # ob) k = (if fst kv = k then Some (snd kv) else obj_get ob k)"
  by (cases kv) (simp add: obj_get_def)

lemma get_obj_update:
  "obj_get (obj_update k v ob) k' = (if k' = k \<and> k \<in> set (obj_keys ob) then Some v else obj_get ob k')"
proof (induction ob)
  case Nil
  show ?case by (simp add: obj_keys_Nil)
next
  case (Cons a ob)
  obtain k1 v1 where a: "a = (k1, v1)" by (cases a)
  show ?case using Cons by (auto simp: a obj_keys_Cons obj_get_Cons)
qed

lemma get_obj_insert:
  "k \<notin> set (obj_keys ob) \<Longrightarrow> obj_get (obj_insert k v ob) k' = (if k' = k then Some v else obj_get ob k')"
proof (induction ob)
  case Nil
  show ?case by (simp add: obj_get_Cons obj_get_def)
next
  case (Cons a ob)
  obtain k1 v1 where a: "a = (k1, v1)" by (cases a)
  show ?case using Cons by (auto simp: a obj_keys_Cons obj_get_Cons)
qed

lemma get_obj_set: "obj_get (obj_set k v ob) k' = (if k' = k then Some v else obj_get ob k')"
  by (simp add: obj_set_def get_obj_update get_obj_insert)

lemma key_precedes_trans_before:
  "key_before k k' \<Longrightarrow> key_precedes k' y \<Longrightarrow> key_precedes k y"
  by (auto simp: key_before_def key_precedes_def split: option.splits)

lemma not_before_precedes: "\<not> key_before k k' \<Longrightarrow> key_precedes k' k"
  by (auto simp: key_before_def key_precedes_def split: option.splits)

lemma before_precedes: "key_before k k' \<Longrightarrow> key_precedes k k'"
  by (auto simp: key_before_def key_precedes_def split: option.splits)

lemma order_obj_insert:
  "js_key_order (obj_keys ob) \<Longrightarrow> js_key_order (obj_keys (obj_insert k v ob))"
proof (induction ob)
  case Nil
  then show ?case by (simp add: js_key_order_def obj_keys_Cons obj_keys_Nil)
next
  case (Cons a ob)
  obtain k' v' where a: "a = (k', v')" by (cases a)
  from Cons.prems have tl: "js_key_order (obj_keys ob)" and hd: "\<forall>y\<in>set (obj_keys ob). key_precedes k' y"
    by (auto simp: js_key_order_def obj_keys_Cons a)
  show ?case
  proof (cases "key_before k k'")
    case True
    then have "\<forall>y\<in>set (obj_keys ob). key_precedes k y"
      using hd key_precedes_trans_before by blast
    then show ?thesis using True Cons.prems before_precedes[OF True]
      by (auto simp: js_key_order_def obj_keys_Cons a)
  next
    case False
    have "\<forall>y\<in>set (obj_keys (obj_insert k v ob)). key_precedes k' y"
      using hd not_before_precedes[OF False] by (auto simp: keys_obj_insert)
    then show ?thesis using False Cons.IH[OF tl]
      by (auto simp: js_key_order_def obj_keys_Cons a)
  qed
qed

lemma order_obj_set: "js_key_order (obj_keys ob) \<Longrightarrow> js_key_order (obj_keys (obj_set k v ob))"
  by (simp add: obj_set_def keys_obj_update order_obj_insert)

lemma obj_insert_append:
  "array_index k = None \<Longrightarrow> obj_insert k v ob = ob @ [(k, v)]"
  by (induction ob) (auto simp: key_before_def)

lemma filter_absent: "k \<notin> set (obj_keys ob) \<Longrightarrow> filter (\<lambda>kv. fst kv \<noteq> k) ob = ob"
  by (induction ob) (auto simp: obj_keys_Cons)

lemma obj_insert_others:
  "k \<notin> set (obj_keys ob) \<Longrightarrow> filter (\<lambda>kv. fst kv \<noteq> k) (obj_insert k v ob) = ob"
proof (induction ob)
  case Nil then show ?case by simp
next
  case (Cons a ob)
  obtain k1 v1 where a: "a = (k1, v1)" by (cases a)
  from Cons.prems have n: "k \<noteq> k1" "k \<notin> set (obj_keys ob)" by (auto simp: a obj_keys_Cons)
  show ?case using Cons.IH[OF n(2)] n filter_absent[OF n(2)] by (simp add: a)
qed



subsection \<open>Evaluating concrete runs\<close>

lemmas run_defs = run_created_def run_question_def run_joined_A_def run_joined_def run_answered_zero_def run_stopped_def
  env_A1B2C3_def env_abcdef_def env_123456_def date0_def init_def after_def
lemmas handler_defs = on_TEACHER_CREATE_SESSION_def on_TEACHER_START_MCQ_def on_TEACHER_NEXT_EXPLANATION_def
  on_TEACHER_STOP_QUIZ_def on_TEACHER_CLOSE_PAGE_def on_TEACHER_DOWNLOAD_CSV_def on_TEACHER_REJOIN_SESSION_def
  on_STUDENT_JOIN_SESSION_def on_STUDENT_SUBMIT_MCQ_def on_STUDENT_EXPLANATION_UPDATE_def
  start_mcq_def next_explanation_def join_session_def submit_mcq_def submit_explanation_def
  new_session_def empty_answer_def add_answer_slots_def close_students_def close_ws_def
  current_question_def getCurrentQuestion_def set_current_def sendJSON_def broadcastToSession_def
  broadcastTeacherView_def obj_set_def obj_keys_def obj_values_def obj_get_def key_before_def
  array_index_def is_digit_def decimal_val_def digit_val_def dec_digits.simps
  generateSessionCode_def toString_hex_def hex_byte_def hex_digit_def toUpperCase_def toUpperCase_char_def
  str_or_empty_def inherited_prop_def builtin_names_def assign_inherited_def

lemmas csv_defs = generateCSV_def for_in_rows_def inherited_keys_def inherited_row_def pval_or_empty_def
  csv_header_def csv_row_def csv_field_def num_or_empty_def
  String_cell_def String_num_def replace_quotes_def dquote_def
  getTimestampString_def padStart2_def

lemmas run_defs2 = run_overwrite_def run_restart_def run_late_join_def env_00ff00_def run_proto_def
  run_constructor_def

subsection \<open>Runs and reachable states\<close>

lemma reachable_run: "reachable st \<Longrightarrow> run is st = Some st' \<Longrightarrow> reachable st'"
proof (induction "is" arbitrary: st)
  case Nil
  then show ?case by simp
next
  case (Cons i "is")
  from Cons.prems(2) obtain st1 out where s: "step i st = Some (st1, out)" and r: "run is st1 = Some st'"
    by (auto split: option.splits)
  show ?case by (rule Cons.IH [OF reachable_step [OF Cons.prems(1) s] r])
qed

lemma reachable_after: "run is init = Some st \<Longrightarrow> reachable (after is)"
  using reachable_run [OF reachable_init, of "is" st] by (simp add: after_def)

lemma run_append:
  "run (is @ js) st = (case run is st of None \<Rightarrow> None | Some st' \<Rightarrow> run js st')"
  by (induction "is" arbitrary: st) (simp_all split: option.splits)

lemma effects_append:
  "effects (is @ js) st
     = effects is st @ (case run is st of None \<Rightarrow> [] | Some st' \<Rightarrow> effects js st')"
  by (induction "is" arbitrary: st) (simp_all split: option.splits)

subsection \<open>Fields that an update leaves alone\<close>

lemma current_question_stage [simp]: "current_question (s\<lparr>stage := x\<rparr>) = current_question s"
  by (simp add: current_question_def Let_def)

lemma current_question_teacher [simp]: "current_question (s\<lparr>teacher := x\<rparr>) = current_question s"
  by (simp add: current_question_def Let_def)

lemma length_start_mcq: "length (questions (start_mcq qText options s)) = Suc (length (questions s))"
  by (simp add: start_mcq_def Let_def set_current_def split: option.splits)

lemma close_students_fields:
  "sessions (fst (close_students s st)) = sessions st"
  "prototype (fst (close_students s st)) = prototype st"
  "clients (fst (close_students s st)) = clients st"
  "isAlive (fst (close_students s st)) = isAlive st"
  "totalUptime (fst (close_students s st)) = totalUptime st"
  "keepAliveInterval (fst (close_students s st)) = keepAliveInterval st"
proof -
  have "sessions (fold (\<lambda>stu. close_ws (stu_ws stu)) xs st) = sessions st \<and>
        prototype (fold (\<lambda>stu. close_ws (stu_ws stu)) xs st) = prototype st \<and>
        clients (fold (\<lambda>stu. close_ws (stu_ws stu)) xs st) = clients st \<and>
        isAlive (fold (\<lambda>stu. close_ws (stu_ws stu)) xs st) = isAlive st \<and>
        totalUptime (fold (\<lambda>stu. close_ws (stu_ws stu)) xs st) = totalUptime st \<and>
        keepAliveInterval (fold (\<lambda>stu. close_ws (stu_ws stu)) xs st) = keepAliveInterval st"
    for xs :: "student list"
    by (induction xs arbitrary: st) (simp_all add: close_ws_def)
  then show "sessions (fst (close_students s st)) = sessions st"
    "prototype (fst (close_students s st)) = prototype st"
    "clients (fst (close_students s st)) = clients st"
    "isAlive (fst (close_students s st)) = isAlive st"
    "totalUptime (fst (close_students s st)) = totalUptime st"
    "keepAliveInterval (fst (close_students s st)) = keepAliveInterval st"
    by (simp_all add: close_students_def)
qed

text \<open>What the handlers return for a code under which the registry has an entry.\<close>

lemma stop_own:
  assumes "sessions st c = Some s"
  shows "\<exists>st' out. on_TEACHER_STOP_QUIZ c st = Some (st', out) \<and>
           sessions st' = (sessions st)(c \<mapsto> s\<lparr>stage := STOPPED\<rparr>) \<and>
           prototype st' = prototype st \<and> clients st' = clients st \<and> isAlive st' = isAlive st \<and>
           totalUptime st' = totalUptime st \<and> keepAliveInterval st' = keepAliveInterval st \<and>
           st' = fst (close_students (s\<lparr>stage := STOPPED\<rparr>)
                        (st\<lparr>sessions := (sessions st)(c \<mapsto> s\<lparr>stage := STOPPED\<rparr>)\<rparr>))"
  using assms by (simp add: on_TEACHER_STOP_QUIZ_def Let_def split_beta close_students_fields)

lemma close_page_own:
  assumes "sessions st c = Some s"
  shows "\<exists>st' out. on_TEACHER_CLOSE_PAGE c st = Some (st', out) \<and>
           sessions st' = (sessions st)(c := None) \<and>
           prototype st' = prototype st \<and> clients st' = clients st \<and> isAlive st' = isAlive st \<and>
           totalUptime st' = totalUptime st \<and> keepAliveInterval st' = keepAliveInterval st \<and>
           readyState st' = readyState (fst (close_students (s\<lparr>stage := STOPPED\<rparr>)
                        (st\<lparr>sessions := (sessions st)(c \<mapsto> s\<lparr>stage := STOPPED\<rparr>)\<rparr>)))"
  using assms by (simp add: on_TEACHER_CLOSE_PAGE_def Let_def split_beta close_students_fields)



subsection \<open>The export\<close>

lemma fold_answer_rows:
  "fold (\<lambda>(studentId, ans) rows. rows @ [csv_row q ans]) ob rows
     = rows @ map (\<lambda>ans. csv_row q ans) (obj_values ob)"
  by (induction ob arbitrary: rows) (auto simp: obj_values_def split: prod.splits)

lemma fold_inherited_rows:
  "fold (\<lambda>studentId rows. rows @ [r]) ks rows = rows @ map (\<lambda>k. r) ks"
  by (induction ks arbitrary: rows) simp_all

lemma for_in_rows_append:
  "for_in_rows proto q rows
     = rows @ map (\<lambda>ans. csv_row q ans) (obj_values (answers q)) @ inherited_rows proto q"
  by (simp add: for_in_rows_def fold_answer_rows fold_inherited_rows inherited_rows_def)

lemma fold_question_rows:
  "fold (for_in_rows proto) qs rows
     = rows @ concat (map (\<lambda>q. map (\<lambda>ans. csv_row q ans) (obj_values (answers q))
                               @ inherited_rows proto q) qs)"
  by (induction qs arbitrary: rows) (simp_all add: for_in_rows_append)

lemma generateCSV_all_rows:
  "generateCSV proto session = join_str [CHR 0x0A] (map csv_line (csv_header # all_rows proto session))"
proof -
  have l: "(\<lambda>r. join_str '','' (map csv_field r)) = csv_line"
    by (rule ext) (simp add: csv_line_def)
  show ?thesis
    unfolding generateCSV_def Let_def fold_question_rows l all_rows_def by simp
qed


lemma csv_row_zero_to_null: "csv_row q (zero_to_null ans) = csv_row q ans"
  by (simp add: csv_row_def zero_to_null_def num_or_empty_def)

lemma csv_row_text: "csv_row (q\<lparr>answers := ob\<rparr>) ans = csv_row q ans"
  by (simp add: csv_row_def)

lemma inherited_rows_zero_to_null:
  "inherited_rows proto (q\<lparr>answers := map (\<lambda>kv. (fst kv, zero_to_null (snd kv))) (answers q)\<rparr>)
     = inherited_rows proto q"
  by (simp add: inherited_rows_def inherited_keys_def inherited_row_def obj_keys_def comp_def)

lemma all_rows_zeros_to_null: "all_rows proto (zeros_to_null session) = all_rows proto session"
  by (simp add: all_rows_def zeros_to_null_def comp_def obj_values_def csv_row_zero_to_null
      csv_row_text inherited_rows_zero_to_null)







text \<open>
  C10. In the export an answer record whose \<open>mcqAnswer\<close> is option 0 gives the empty quoted
  field, exactly as an unanswered (\<open>null\<close>) record does: the two fields are the same string, the
  two rows are the same line, and the export of a session is the export of the session in
  which every selection of option 0 is replaced by \<open>null\<close>.
\<close>

theorem csv_option_zero_as_unanswered:
  "csv_field (num_or_empty (Some 0)) = [dquote, dquote] \<and>
   csv_field (num_or_empty None) = [dquote, dquote] \<and>
   csv_line (csv_row q (ans\<lparr>mcqAnswer := Some 0\<rparr>)) = csv_line (csv_row q (ans\<lparr>mcqAnswer := None\<rparr>)) \<and>
   generateCSV proto (zeros_to_null session) = generateCSV proto session"
proof -
  have f: "csv_field (num_or_empty (Some 0)) = [dquote, dquote]"
    "csv_field (num_or_empty None) = [dquote, dquote]"
    by (simp_all add: csv_field_def num_or_empty_def String_cell_def replace_quotes_def)
  have r: "csv_row q (ans\<lparr>mcqAnswer := Some 0\<rparr>) = csv_row q (ans\<lparr>mcqAnswer := None\<rparr>)"
    by (simp add: csv_row_def num_or_empty_def)
  have g: "generateCSV proto (zeros_to_null session) = generateCSV proto session"
    by (simp only: generateCSV_all_rows all_rows_zeros_to_null)
  show ?thesis using f r g by simp
qed

theorem csv_option_zero_witness:
  \<open>mcqAnswer (snd (last (answers (hd (questions (the (sessions (after run_answered_zero) ''A1B2C3''))))))) = Some 0 \<and>
   generateCSV (prototype (after run_answered_zero)) (the (sessions (after run_answered_zero) ''A1B2C3''))
     = generateCSV (prototype (after run_answered_zero))
         (zeros_to_null (the (sessions (after run_answered_zero) ''A1B2C3''))) \<and>
   generateCSV (prototype (after run_answered_zero)) (the (sessions (after run_answered_zero) ''A1B2C3''))
     = ''"Question #","Question Text","Username","MCQ Answer","Explanation"'' @ [CHR 0x0A] @
       ''"1","Q","B","",""'' @ [CHR 0x0A] @ ''"1","Q","A","",""''\<close>
proof -
  have a: "mcqAnswer (snd (last (answers (hd (questions (the (sessions (after run_answered_zero) ''A1B2C3''))))))) = Some 0"
    by (simp add: run_defs handler_defs Let_def)
  have b: \<open>generateCSV (prototype (after run_answered_zero)) (the (sessions (after run_answered_zero) ''A1B2C3''))
     = ''"Question #","Question Text","Username","MCQ Answer","Explanation"'' @ [CHR 0x0A] @
       ''"1","Q","B","",""'' @ [CHR 0x0A] @ ''"1","Q","A","",""''\<close>
    by (simp add: run_defs handler_defs csv_defs Let_def)
  have c: "generateCSV (prototype (after run_answered_zero))
             (zeros_to_null (the (sessions (after run_answered_zero) ''A1B2C3'')))
     = generateCSV (prototype (after run_answered_zero)) (the (sessions (after run_answered_zero) ''A1B2C3''))"
    using csv_option_zero_as_unanswered by blast
  show ?thesis using a b c by simp
qed

subsection \<open>Commands that name no session of the registry\<close>

text \<open>
  C4. In a reachable state, take a session code under which the registry has no entry.
  When the lookup of the code finds nothing truthy on \<open>Object.prototype\<close> either, start-question,
  advance-to-explanation, stop-session and close-and-delete change nothing and call no
  method of any connection, and join-session, request-export and reattach-coordinator
  change nothing and send one \<open>ERROR\<close> event to the calling connection (\<open>sendJSON\<close> sends when
  that connection is open). When the lookup finds a truthy inherited value, all of them
  throw instead, except reattach-coordinator on a number or string, which returns without
  sending anything. The codes \<open>__proto__\<close>, \<open>constructor\<close> and the names of the methods of
  \<open>Object.prototype\<close> always find such a value, which is no number or string: for these
  seven commands throw, although no session has that code.
\<close>

theorem unknown_session_code:
  assumes "reachable st" "sessions st sessionCode = None"
  shows "(\<not> truthy (inherited_prop (prototype st) sessionCode) \<longrightarrow>
            on_message ws e (TEACHER_START_MCQ sessionCode qText options) st = Some (st, []) \<and>
            on_message ws e (TEACHER_NEXT_EXPLANATION sessionCode) st = Some (st, []) \<and>
            on_message ws e (TEACHER_STOP_QUIZ sessionCode) st = Some (st, []) \<and>
            on_message ws e (TEACHER_CLOSE_PAGE sessionCode) st = Some (st, []) \<and>
            on_message ws e (STUDENT_JOIN_SESSION sessionCode name) st
              = Some (st, if readyState st ws = OPEN then [Send ws (ERROR ''Invalid session code'')] else []) \<and>
            on_message ws e (TEACHER_DOWNLOAD_CSV sessionCode) st
              = Some (st, if readyState st ws = OPEN then [Send ws (ERROR ''No such session.'')] else []) \<and>
            on_message ws e (TEACHER_REJOIN_SESSION sessionCode) st
              = Some (st, if readyState st ws = OPEN then [Send ws (ERROR ''Session code not found'')] else [])) \<and>
         (truthy (inherited_prop (prototype st) sessionCode) \<longrightarrow>
            on_message ws e (TEACHER_START_MCQ sessionCode qText options) st = None \<and>
            on_message ws e (TEACHER_NEXT_EXPLANATION sessionCode) st = None \<and>
            on_message ws e (TEACHER_STOP_QUIZ sessionCode) st = None \<and>
            on_message ws e (TEACHER_CLOSE_PAGE sessionCode) st = None \<and>
            on_message ws e (STUDENT_JOIN_SESSION sessionCode name) st = None \<and>
            on_message ws e (TEACHER_DOWNLOAD_CSV sessionCode) st = None \<and>
            on_message ws e (TEACHER_REJOIN_SESSION sessionCode) st
              = (case inherited_prop (prototype st) sessionCode of
                   Primitive v \<Rightarrow> Some (st, [])
                 | _ \<Rightarrow> None)) \<and>
         (sessionCode = ''__proto__'' \<or> sessionCode \<in> set builtin_names \<longrightarrow>
            truthy (inherited_prop (prototype st) sessionCode) \<and>
            on_message ws e (TEACHER_REJOIN_SESSION sessionCode) st = None)"
proof -
  have a: "on_message ws e (TEACHER_START_MCQ sessionCode qText options) st = Some (st, []) \<and>
            on_message ws e (TEACHER_NEXT_EXPLANATION sessionCode) st = Some (st, []) \<and>
            on_message ws e (TEACHER_STOP_QUIZ sessionCode) st = Some (st, []) \<and>
            on_message ws e (TEACHER_CLOSE_PAGE sessionCode) st = Some (st, []) \<and>
            on_message ws e (STUDENT_JOIN_SESSION sessionCode name) st
              = Some (st, if readyState st ws = OPEN then [Send ws (ERROR ''Invalid session code'')] else []) \<and>
            on_message ws e (TEACHER_DOWNLOAD_CSV sessionCode) st
              = Some (st, if readyState st ws = OPEN then [Send ws (ERROR ''No such session.'')] else []) \<and>
            on_message ws e (TEACHER_REJOIN_SESSION sessionCode) st
              = Some (st, if readyState st ws = OPEN then [Send ws (ERROR ''Session code not found'')] else [])"
    if "\<not> truthy (inherited_prop (prototype st) sessionCode)"
  proof -
    have r: "on_TEACHER_REJOIN_SESSION ws sessionCode st
               = Some (st, if readyState st ws = OPEN then [Send ws (ERROR ''Session code not found'')] else [])"
      using assms(2) that
      by (cases "inherited_prop (prototype st) sessionCode")
         (simp_all add: on_TEACHER_REJOIN_SESSION_def sendJSON_def)
    show ?thesis
      using assms(2) that r
      by (simp add: on_TEACHER_START_MCQ_def on_TEACHER_NEXT_EXPLANATION_def on_TEACHER_STOP_QUIZ_def
          on_TEACHER_CLOSE_PAGE_def on_STUDENT_JOIN_SESSION_def on_TEACHER_DOWNLOAD_CSV_def sendJSON_def)
  qed
  have b: "on_message ws e (TEACHER_START_MCQ sessionCode qText options) st = None \<and>
            on_message ws e (TEACHER_NEXT_EXPLANATION sessionCode) st = None \<and>
            on_message ws e (TEACHER_STOP_QUIZ sessionCode) st = None \<and>
            on_message ws e (TEACHER_CLOSE_PAGE sessionCode) st = None \<and>
            on_message ws e (STUDENT_JOIN_SESSION sessionCode name) st = None \<and>
            on_message ws e (TEACHER_DOWNLOAD_CSV sessionCode) st = None \<and>
            on_message ws e (TEACHER_REJOIN_SESSION sessionCode) st
              = (case inherited_prop (prototype st) sessionCode of
                   Primitive v \<Rightarrow> Some (st, [])
                 | _ \<Rightarrow> None)"
    if "truthy (inherited_prop (prototype st) sessionCode)"
  proof -
    have r: "on_TEACHER_REJOIN_SESSION ws sessionCode st
               = (case inherited_prop (prototype st) sessionCode of
                   Primitive v \<Rightarrow> Some (st, [])
                 | _ \<Rightarrow> None)"
      using assms(2) that
      by (cases "inherited_prop (prototype st) sessionCode")
         (simp_all add: on_TEACHER_REJOIN_SESSION_def)
    show ?thesis
      using assms(2) that r
      by (simp add: on_TEACHER_START_MCQ_def on_TEACHER_NEXT_EXPLANATION_def on_TEACHER_STOP_QUIZ_def
          on_TEACHER_CLOSE_PAGE_def on_STUDENT_JOIN_SESSION_def on_TEACHER_DOWNLOAD_CSV_def)
  qed
  have c: "truthy (inherited_prop (prototype st) sessionCode) \<and>
            on_message ws e (TEACHER_REJOIN_SESSION sessionCode) st = None"
    if "sessionCode = ''__proto__'' \<or> sessionCode \<in> set builtin_names"
  proof -
    have "inherited_prop (prototype st) sessionCode = Object_prototype \<or>
          inherited_prop (prototype st) sessionCode = Builtin_function"
      using that by (auto simp: inherited_prop_def)
    then show ?thesis using assms(2) by (auto simp: on_TEACHER_REJOIN_SESSION_def)
  qed
  show ?thesis using a b c by blast
qed

theorem unknown_session_code_witness:
  "reachable (after run_created) \<and>
   sessions (after run_created) ''ZZZZZZ'' = None \<and>
   \<not> truthy (inherited_prop (prototype (after run_created)) ''ZZZZZZ'') \<and>
   on_message 0 env_A1B2C3 (TEACHER_START_MCQ ''ZZZZZZ'' ''Q'' 4) (after run_created)
     = Some (after run_created, []) \<and>
   on_message 1 env_abcdef (STUDENT_JOIN_SESSION ''ZZZZZZ'' ''Sam'') (after run_created)
     = Some (after run_created, [Send 1 (ERROR ''Invalid session code'')]) \<and>
   on_message 0 env_A1B2C3 (TEACHER_DOWNLOAD_CSV ''ZZZZZZ'') (after run_created)
     = Some (after run_created, [Send 0 (ERROR ''No such session.'')]) \<and>
   on_message 0 env_A1B2C3 (TEACHER_REJOIN_SESSION ''ZZZZZZ'') (after run_created)
     = Some (after run_created, [Send 0 (ERROR ''Session code not found'')]) \<and>
   sessions (after run_created) ''constructor'' = None \<and>
   ''constructor'' \<in> set builtin_names \<and>
   truthy (inherited_prop (prototype (after run_created)) ''constructor'') \<and>
   on_message 0 env_A1B2C3 (TEACHER_START_MCQ ''constructor'' ''Q'' 4) (after run_created) = None \<and>
   on_message 0 env_A1B2C3 (TEACHER_STOP_QUIZ ''constructor'') (after run_created) = None \<and>
   on_message 1 env_abcdef (STUDENT_JOIN_SESSION ''constructor'' ''Sam'') (after run_created) = None \<and>
   on_message 0 env_A1B2C3 (TEACHER_DOWNLOAD_CSV ''constructor'') (after run_created) = None \<and>
   on_message 0 env_A1B2C3 (TEACHER_REJOIN_SESSION ''constructor'') (after run_created) = None \<and>
   run run_constructor init = None"
proof -
  have "run run_created init = Some (after run_created)"
    by (simp add: run_defs handler_defs Let_def)
  then have a: "reachable (after run_created)" by (rule reachable_after)
  have h: "sessions (after run_created) ''ZZZZZZ'' = None"
    "sessions (after run_created) ''constructor'' = None"
    by (simp_all add: run_defs handler_defs Let_def)
  have t: "\<not> truthy (inherited_prop (prototype (after run_created)) ''ZZZZZZ'')"
    "''constructor'' \<in> set builtin_names"
    by (simp_all add: run_defs handler_defs Let_def)
  have o: "readyState (after run_created) 0 = OPEN" "readyState (after run_created) 1 = OPEN"
    by (simp_all add: run_defs handler_defs Let_def)
  have r: "run run_constructor init = None"
    by (simp add: run_defs run_defs2 handler_defs Let_def)
  have z: "on_message 0 env_A1B2C3 (TEACHER_START_MCQ ''ZZZZZZ'' ''Q'' 4) (after run_created)
     = Some (after run_created, []) \<and>
   on_message 1 env_abcdef (STUDENT_JOIN_SESSION ''ZZZZZZ'' ''Sam'') (after run_created)
     = Some (after run_created, [Send 1 (ERROR ''Invalid session code'')]) \<and>
   on_message 0 env_A1B2C3 (TEACHER_DOWNLOAD_CSV ''ZZZZZZ'') (after run_created)
     = Some (after run_created, [Send 0 (ERROR ''No such session.'')]) \<and>
   on_message 0 env_A1B2C3 (TEACHER_REJOIN_SESSION ''ZZZZZZ'') (after run_created)
     = Some (after run_created, [Send 0 (ERROR ''Session code not found'')])"
    using t(1) o unknown_session_code [OF a h(1), of 0 env_A1B2C3 "''Q''" 4 "''Sam''"]
      unknown_session_code [OF a h(1), of 1 env_abcdef "''Q''" 4 "''Sam''"]
    by simp
  have c: "truthy (inherited_prop (prototype (after run_created)) ''constructor'') \<and>
   on_message 0 env_A1B2C3 (TEACHER_START_MCQ ''constructor'' ''Q'' 4) (after run_created) = None \<and>
   on_message 0 env_A1B2C3 (TEACHER_STOP_QUIZ ''constructor'') (after run_created) = None \<and>
   on_message 1 env_abcdef (STUDENT_JOIN_SESSION ''constructor'' ''Sam'') (after run_created) = None \<and>
   on_message 0 env_A1B2C3 (TEACHER_DOWNLOAD_CSV ''constructor'') (after run_created) = None \<and>
   on_message 0 env_A1B2C3 (TEACHER_REJOIN_SESSION ''constructor'') (after run_created) = None"
    using t(2) unknown_session_code [OF a h(2), of 0 env_A1B2C3 "''Q''" 4 "''Sam''"]
      unknown_session_code [OF a h(2), of 1 env_abcdef "''Q''" 4 "''Sam''"]
    by blast
  show ?thesis using a h t r z c by blast
qed



subsection \<open>Creating, stopping, exporting\<close>

lemma generateCSV_stage [simp]: "generateCSV proto (s\<lparr>stage := x\<rparr>) = generateCSV proto s"
  by (simp add: generateCSV_def)

text \<open>
  C2, as stated, fails: the handler never looks into the registry and never retries. In the
  run below the code \<open>A1B2C3\<close> is drawn a second time and the session that had one question
  and the teacher on connection 0 is replaced by a new, empty one.
\<close>

theorem create_session_collision_counterexample:
  "generateSessionCode (randomBytes env_A1B2C3) = ''A1B2C3'' \<and>
   length (questions (the (sessions (after run_question) ''A1B2C3''))) = 1 \<and>
   teacher (the (sessions (after run_question) ''A1B2C3'')) = Some 0 \<and>
   run run_overwrite init = Some (after run_overwrite) \<and>
   sessions (after run_overwrite) ''A1B2C3'' = Some (new_session 1) \<and>
   questions (new_session 1) = []"
  by (simp add: run_defs run_defs2 handler_defs Let_def)

text \<open>
  C2, amended. Creation stores a new \<open>WAITING\<close> session under the generated code without
  consulting the registry: the entries under all other codes stay as they are, the registry
  has one entry for each code, and the caller is sent \<open>SESSION_CREATED\<close> with the code. (An
  entry that was stored under the same code is thereby replaced; there is no retry.)
\<close>

theorem create_session_stores_unchecked:
  "(let code = generateSessionCode (randomBytes e)
    in \<exists>st'. on_message ws e TEACHER_CREATE_SESSION st
                = Some (st', if readyState st ws = OPEN then [Send ws (SESSION_CREATED code)] else []) \<and>
         sessions st' code = Some (new_session ws) \<and>
         (\<forall>c. c \<noteq> code \<longrightarrow> sessions st' c = sessions st c) \<and>
         dom (sessions st') = insert code (dom (sessions st)))"
  by (simp add: on_TEACHER_CREATE_SESSION_def Let_def sendJSON_def)

theorem create_session_witness:
  "generateSessionCode (randomBytes env_abcdef) = ''ABCDEF'' \<and>
   sessions (fst (the (on_message 1 env_abcdef TEACHER_CREATE_SESSION (after run_question)))) ''ABCDEF''
     = Some (new_session 1) \<and>
   sessions (fst (the (on_message 1 env_abcdef TEACHER_CREATE_SESSION (after run_question)))) ''A1B2C3''
     = sessions (after run_question) ''A1B2C3''"
  using create_session_stores_unchecked [of env_abcdef 1 "after run_question"]
  by (simp add: run_defs handler_defs Let_def)

text \<open>
  C1, as stated, fails: no handler reads the stage. In the run below the session is stopped
  with one question and two answer records; a start-question then appends a second question,
  and a join adds a third answer record to the first question.
\<close>

theorem stopped_not_frozen_counterexample:
  "stage (the (sessions (after run_stopped) ''A1B2C3'')) = STOPPED \<and>
   length (questions (the (sessions (after run_stopped) ''A1B2C3''))) = 1 \<and>
   obj_keys (answers (hd (questions (the (sessions (after run_stopped) ''A1B2C3'')))))
     = [''123456'', ''abcdef''] \<and>
   run run_restart init = Some (after run_restart) \<and>
   length (questions (the (sessions (after run_restart) ''A1B2C3''))) = 2 \<and>
   run run_late_join init = Some (after run_late_join) \<and>
   obj_keys (answers (hd (questions (the (sessions (after run_late_join) ''A1B2C3'')))))
     = [''123456'', ''abcdef'', ''00ff00'']"
  by (simp add: run_defs run_defs2 handler_defs Let_def)

text \<open>
  C1, amended. After stop-session the session remains in the registry in stage \<open>STOPPED\<close>
  with its questions and answers as they were, and request-export on its code still succeeds:
  the caller is sent \<open>CSV_DATA\<close> with the export of those questions. The stage does not
  block the other commands: a start-question on the stopped session appends a question and
  sets the stage to \<open>MCQ\<close>.
\<close>

theorem stop_retains_session:
  assumes "sessions st sessionCode = Some s"
  shows "\<exists>st1 out1.
           on_message ws0 e0 (TEACHER_STOP_QUIZ sessionCode) st = Some (st1, out1) \<and>
           sessions st1 sessionCode = Some (s\<lparr>stage := STOPPED\<rparr>) \<and>
           on_message ws e (TEACHER_DOWNLOAD_CSV sessionCode) st1
             = Some (st1, if readyState st1 ws = OPEN
                          then [Send ws (CSV_DATA (generateCSV (prototype st) s)
                                  (''quiz_data_'' @ sessionCode @ ''_'' @ getTimestampString (now e) @ ''.csv''))]
                          else []) \<and>
           (\<exists>st2 out2 s2.
               on_message ws e (TEACHER_START_MCQ sessionCode qText options) st1 = Some (st2, out2) \<and>
               sessions st2 sessionCode = Some s2 \<and>
               stage s2 = MCQ \<and> length (questions s2) = Suc (length (questions s)))"
proof -
  from stop_own [OF assms] obtain st1 out1 where
    st1: "on_TEACHER_STOP_QUIZ sessionCode st = Some (st1, out1)"
      "sessions st1 = (sessions st)(sessionCode \<mapsto> s\<lparr>stage := STOPPED\<rparr>)"
      "prototype st1 = prototype st"
    by blast
  have s1: "sessions st1 sessionCode = Some (s\<lparr>stage := STOPPED\<rparr>)"
    by (simp add: st1(2))
  have a: "on_TEACHER_DOWNLOAD_CSV ws e sessionCode st1
             = Some (st1, if readyState st1 ws = OPEN
                          then [Send ws (CSV_DATA (generateCSV (prototype st) s)
                                  (''quiz_data_'' @ sessionCode @ ''_'' @ getTimestampString (now e) @ ''.csv''))]
                          else [])"
    using s1 st1(3) by (simp add: on_TEACHER_DOWNLOAD_CSV_def Let_def sendJSON_def)
  obtain st2 out2 where b:
    "on_TEACHER_START_MCQ sessionCode qText options st1 = Some (st2, out2)"
    "sessions st2 sessionCode = Some (start_mcq qText options (s\<lparr>stage := STOPPED\<rparr>))"
    using s1 by (simp add: on_TEACHER_START_MCQ_def Let_def)
  have c: "stage (start_mcq qText options (s\<lparr>stage := STOPPED\<rparr>)) = MCQ"
    by (simp add: start_mcq_def Let_def set_current_def split: option.splits)
  have d: "length (questions (start_mcq qText options (s\<lparr>stage := STOPPED\<rparr>))) = Suc (length (questions s))"
    by (simp add: length_start_mcq)
  show ?thesis using st1(1) s1 a b c d by auto
qed

theorem stop_retains_session_witness:
  "sessions (after run_joined) ''A1B2C3'' \<noteq> None \<and>
   stage (the (sessions (fst (the (on_message 0 env_A1B2C3 (TEACHER_STOP_QUIZ ''A1B2C3'') (after run_joined))))
      ''A1B2C3'')) = STOPPED \<and>
   snd (the (on_message 0 env_A1B2C3 (TEACHER_DOWNLOAD_CSV ''A1B2C3'')
          (fst (the (on_message 0 env_A1B2C3 (TEACHER_STOP_QUIZ ''A1B2C3'') (after run_joined))))))
     = [Send 0 (CSV_DATA (generateCSV (prototype (after run_joined)) (the (sessions (after run_joined) ''A1B2C3'')))
          ''quiz_data_A1B2C3_20230310-150501.csv'')]"
proof -
  have h: "sessions (after run_joined) ''A1B2C3''
             = Some (the (sessions (after run_joined) ''A1B2C3''))"
    by (simp add: run_defs handler_defs Let_def)
  show ?thesis
    using stop_retains_session [OF h, of 0 env_A1B2C3 0 env_A1B2C3 "''Q2''" 2]
    by (simp add: run_defs handler_defs csv_defs Let_def)
qed


subsection \<open>Operations on one session keep its invariants\<close>

lemma current_questionD:
  "current_question s = Some q \<Longrightarrow>
     0 \<le> currentQuestionIndex s \<and> nat (currentQuestionIndex s) < length (questions s) \<and>
     q = questions s ! nat (currentQuestionIndex s)"
  by (auto simp: current_question_def Let_def split: if_splits)

lemma current_question_students [simp]:
  "current_question (s\<lparr>students := x\<rparr>) = current_question s"
  by (simp add: current_question_def Let_def)

lemma current_question_set_current:
  "current_question s = Some q \<Longrightarrow> current_question (set_current q' s) = Some q'"
  by (auto simp: current_question_def set_current_def Let_def split: if_splits)

lemma set_current_fields [simp]:
  "students (set_current q s) = students s"
  "teacher (set_current q s) = teacher s"
  "stage (set_current q s) = stage s"
  "currentQuestionIndex (set_current q s) = currentQuestionIndex s"
  "length (questions (set_current q s)) = length (questions s)"
  by (simp_all add: set_current_def)

lemma questions_set_current:
  "questions (set_current q s) = (questions s)[nat (currentQuestionIndex s) := q]"
  by (simp add: set_current_def)

lemma in_set_current:
  "x \<in> set (questions (set_current q s)) \<Longrightarrow> x = q \<or> x \<in> set (questions s)"
  using set_update_subset_insert [of "questions s" "nat (currentQuestionIndex s)" q]
  by (auto simp: questions_set_current)

text \<open>The answer slots of a new question.\<close>

lemma add_answer_slots_fields [simp]:
  "questionNumber (add_answer_slots studs q) = questionNumber q"
  "questionText (add_answer_slots studs q) = questionText q"
  "mcqOptions (add_answer_slots studs q) = mcqOptions q"
  "q_stage (add_answer_slots studs q) = q_stage q"
  unfolding add_answer_slots_def
  by (induction studs arbitrary: q; simp add: split_beta)+

lemma keys_add_answer_slots:
  "set (obj_keys (answers (add_answer_slots studs q))) = set (obj_keys (answers q)) \<union> set (obj_keys studs)"
  unfolding add_answer_slots_def
  by (induction studs arbitrary: q) (auto simp: split_beta keys_obj_set obj_keys_Nil obj_keys_Cons)

lemma distinct_add_answer_slots:
  "distinct (obj_keys (answers q)) \<Longrightarrow> distinct (obj_keys (answers (add_answer_slots studs q)))"
  unfolding add_answer_slots_def
  by (induction studs arbitrary: q) (auto simp: split_beta distinct_obj_set)

lemma order_add_answer_slots:
  "js_key_order (obj_keys (answers q)) \<Longrightarrow> js_key_order (obj_keys (answers (add_answer_slots studs q)))"
  unfolding add_answer_slots_def
  by (induction studs arbitrary: q) (auto simp: split_beta order_obj_set)

text \<open>What start-question does to the list of questions.\<close>

lemma start_mcq_shape:
  "\<exists>qs'. questions (start_mcq qText options s)
           = qs' @ [add_answer_slots (students s)
                      \<lparr>questionNumber = length (questions s) + 1, questionText = str_or_empty qText,
                       mcqOptions = options, q_stage = MCQ, answers = []\<rparr>] \<and>
         length qs' = length (questions s) \<and>
         (\<forall>i < length qs'. qs' ! i = questions s ! i \<or> qs' ! i = (questions s ! i)\<lparr>q_stage := DONE\<rparr>)"
proof -
  let ?new = "\<lambda>n. add_answer_slots (students s)
                      \<lparr>questionNumber = n + 1, questionText = str_or_empty qText,
                       mcqOptions = options, q_stage = MCQ, answers = []\<rparr>"
  show ?thesis
  proof (cases "currentQuestionIndex s \<ge> 0 \<and> (\<exists>p. current_question s = Some p \<and> q_stage p = EXPLANATION)")
    case True
    then obtain p where p: "current_question s = Some p" "q_stage p = EXPLANATION" by blast
    let ?i = "nat (currentQuestionIndex s)"
    from current_questionD [OF p(1)] have i: "?i < length (questions s)" "p = questions s ! ?i" by auto
    have "questions (start_mcq qText options s)
            = (questions s)[?i := p\<lparr>q_stage := DONE\<rparr>] @ [?new (length (questions s))]"
      using True p i by (simp add: start_mcq_def Let_def set_current_def list_update_append)
    moreover have "\<forall>j < length (questions s). (questions s)[?i := p\<lparr>q_stage := DONE\<rparr>] ! j = questions s ! j
        \<or> (questions s)[?i := p\<lparr>q_stage := DONE\<rparr>] ! j = (questions s ! j)\<lparr>q_stage := DONE\<rparr>"
      using i by (auto simp: nth_list_update)
    ultimately show ?thesis by (intro exI [of _ "(questions s)[?i := p\<lparr>q_stage := DONE\<rparr>]"]) simp
  next
    case False
    then have "questions (start_mcq qText options s) = questions s @ [?new (length (questions s))]"
      by (auto simp add: start_mcq_def Let_def set_current_def split: option.splits)
    then show ?thesis by (intro exI [of _ "questions s"]) simp
  qed
qed

lemma start_mcq_fields [simp]:
  "students (start_mcq qText options s) = students s"
  "teacher (start_mcq qText options s) = teacher s"
  "stage (start_mcq qText options s) = MCQ"
  "currentQuestionIndex (start_mcq qText options s) = int (length (questions s))"
  by (simp_all add: start_mcq_def Let_def set_current_def split: option.splits)


text \<open>Every operation on a session keeps the index invariant.\<close>

lemma index_inv_new: "index_inv (new_session ws)"
  by (simp add: index_inv_def new_session_def)

lemma index_inv_fields [simp]:
  "index_inv (s\<lparr>stage := x\<rparr>) = index_inv s"
  "index_inv (s\<lparr>teacher := y\<rparr>) = index_inv s"
  "index_inv (s\<lparr>students := z\<rparr>) = index_inv s"
  by (simp_all add: index_inv_def)

lemma index_inv_set_current:
  assumes "index_inv s" "current_question s = Some q" "questionNumber q' = questionNumber q"
  shows "index_inv (set_current q' s)"
proof -
  from current_questionD [OF assms(2)]
  have i: "nat (currentQuestionIndex s) < length (questions s)"
    "q = questions s ! nat (currentQuestionIndex s)" by auto
  show ?thesis using assms(1,3) i
    by (auto simp: index_inv_def questions_set_current nth_list_update)
qed

lemma index_inv_start: 
  assumes "index_inv s" shows "index_inv (start_mcq qText options s)"
proof -
  obtain qs' where q: "questions (start_mcq qText options s)
           = qs' @ [add_answer_slots (students s)
                      \<lparr>questionNumber = length (questions s) + 1, questionText = str_or_empty qText,
                       mcqOptions = options, q_stage = MCQ, answers = []\<rparr>]"
         "length qs' = length (questions s)"
         "\<forall>i < length qs'. qs' ! i = questions s ! i \<or> qs' ! i = (questions s ! i)\<lparr>q_stage := DONE\<rparr>"
    using start_mcq_shape [of qText options s] by blast
  have n: "questionNumber (qs' ! i) = Suc i" if "i < length qs'" for i
    using q(3) q(2) assms that by (auto simp: index_inv_def)
  show ?thesis
    unfolding index_inv_def
    using q(1,2) n by (auto simp: nth_append less_Suc_eq)
qed

lemma index_inv_next: "index_inv s \<Longrightarrow> index_inv (next_explanation s)"
  by (auto simp: next_explanation_def Let_def split: option.splits intro!: index_inv_set_current)

lemma index_inv_join: "index_inv s \<Longrightarrow> index_inv (join_session ws sid name s)"
  by (auto simp: join_session_def Let_def split: option.splits intro!: index_inv_set_current)

lemma index_inv_submit: "index_inv s \<Longrightarrow> submit_mcq sid a s = Some s' \<Longrightarrow> index_inv s'"
  by (auto simp: submit_mcq_def split: option.splits intro!: index_inv_set_current)

lemma index_inv_explanation: "index_inv s \<Longrightarrow> submit_explanation sid a s = Some s' \<Longrightarrow> index_inv s'"
  by (auto simp: submit_explanation_def split: option.splits intro!: index_inv_set_current)

text \<open>Every operation on a session keeps the invariants of the keys.\<close>

lemma keys_inv_new: "keys_inv (new_session ws)"
  by (simp add: keys_inv_def new_session_def current_question_def obj_keys_Nil)

lemma keys_inv_fields [simp]:
  "keys_inv (s\<lparr>stage := x\<rparr>) = keys_inv s"
  "keys_inv (s\<lparr>teacher := y\<rparr>) = keys_inv s"
  by (simp_all add: keys_inv_def)

lemma current_question_in_set: "current_question s = Some q \<Longrightarrow> q \<in> set (questions s)"
  using current_questionD [of s q] by auto

lemma keys_inv_set_current:
  assumes "keys_inv s" "current_question s = Some q" "distinct (obj_keys (answers q'))"
    "set (obj_keys (answers q)) \<subseteq> set (obj_keys (answers q'))"
    "set (obj_keys (answers q')) \<subseteq> set (obj_keys (students s))"
  shows "keys_inv (set_current q' s)"
proof -
  have k2: "distinct (obj_keys (answers x)) \<and> set (obj_keys (answers x)) \<subseteq> set (obj_keys (students s))"
    if "x \<in> set (questions (set_current q' s))" for x
    using in_set_current [OF that] assms by (auto simp: keys_inv_def)
  have k3: "set (obj_keys (students s)) \<subseteq> set (obj_keys (answers q'))"
    using assms(1,2,4) by (auto simp: keys_inv_def)
  show ?thesis
    unfolding keys_inv_def
    using assms(1) k2 k3 current_question_set_current [OF assms(2), of q']
    by (auto simp: keys_inv_def)
qed

lemma keys_inv_next: "keys_inv s \<Longrightarrow> keys_inv (next_explanation s)"
proof -
  assume k: "keys_inv s"
  show ?thesis
  proof (cases "current_question s")
    case None
    then show ?thesis using k by (simp add: next_explanation_def Let_def)
  next
    case (Some q)
    have "set (obj_keys (answers q)) \<subseteq> set (obj_keys (students s))" "distinct (obj_keys (answers q))"
      using k current_question_in_set [OF Some] by (auto simp: keys_inv_def)
    then have "keys_inv (set_current (q\<lparr>q_stage := EXPLANATION\<rparr>) (s\<lparr>stage := EXPLANATION\<rparr>))"
      using k Some by (intro keys_inv_set_current [where q = q]) simp_all
    then show ?thesis using k Some by (simp add: next_explanation_def Let_def)
  qed
qed

lemma keys_inv_slot:
  assumes "keys_inv s" "current_question s = Some q"
    "set (obj_keys ob) = insert sid (set (obj_keys (answers q)))" "distinct (obj_keys ob)"
    "sid \<in> set (obj_keys (students s))"
  shows "keys_inv (set_current (q\<lparr>answers := ob\<rparr>) s)"
proof -
  have "set (obj_keys (answers q)) \<subseteq> set (obj_keys (students s))"
    using assms(1) current_question_in_set [OF assms(2)] by (auto simp: keys_inv_def)
  then show ?thesis using assms
    by (intro keys_inv_set_current [where q = q]) auto
qed

lemma submit_slot_keys:
  assumes "keys_inv s" "current_question s = Some q"
    "(case obj_get (answers q) sid of
        Some slot \<Rightarrow> Some (answers q)
      | None \<Rightarrow> (case obj_get (students s) sid of
                   None \<Rightarrow> None
                 | Some stuInfo \<Rightarrow> Some (obj_set sid (empty_answer (stu_username stuInfo)) (answers q))))
     = Some answers1"
  shows "set (obj_keys answers1) = insert sid (set (obj_keys (answers q))) \<and>
         distinct (obj_keys answers1) \<and> sid \<in> set (obj_keys (students s)) \<and>
         (js_key_order (obj_keys (answers q)) \<longrightarrow> js_key_order (obj_keys answers1))"
proof -
  have q: "set (obj_keys (answers q)) \<subseteq> set (obj_keys (students s))" "distinct (obj_keys (answers q))"
    using assms(1) current_question_in_set [OF assms(2)] by (auto simp: keys_inv_def)
  show ?thesis
  proof (cases "obj_get (answers q) sid")
    case None
    then obtain stuInfo where st: "obj_get (students s) sid = Some stuInfo"
      "answers1 = obj_set sid (empty_answer (stu_username stuInfo)) (answers q)"
      using assms(3) by (auto split: option.splits)
    have "sid \<in> set (obj_keys (students s))"
      using st(1) obj_get_None_iff [of "students s" sid] by auto
    then show ?thesis using st q by (simp add: keys_obj_set distinct_obj_set order_obj_set)
  next
    case (Some slot)
    then have a: "answers1 = answers q" using assms(3) by simp
    have "sid \<in> set (obj_keys (answers q))"
      using Some obj_get_None_iff [of "answers q" sid] by auto
    then show ?thesis using a q by auto
  qed
qed

lemma keys_inv_submit:
  assumes "keys_inv s" "submit_mcq sid a s = Some s'" shows "keys_inv s'"
proof -
  from assms(2) obtain q answers1 slot where
    q: "current_question s = Some q" and
    a1: "(case obj_get (answers q) sid of
        Some slot \<Rightarrow> Some (answers q)
      | None \<Rightarrow> (case obj_get (students s) sid of
                   None \<Rightarrow> None
                 | Some stuInfo \<Rightarrow> Some (obj_set sid (empty_answer (stu_username stuInfo)) (answers q))))
     = Some answers1" and
    s': "s' = set_current (q\<lparr>answers := obj_set sid (slot\<lparr>mcqAnswer := Some a\<rparr>) answers1\<rparr>) s"
    unfolding submit_mcq_def by (auto split: option.splits)
  from submit_slot_keys [OF assms(1) q a1] show ?thesis
    unfolding s' by (intro keys_inv_slot [OF assms(1) q]) (auto simp: keys_obj_set distinct_obj_set)
qed

lemma keys_inv_explanation:
  assumes "keys_inv s" "submit_explanation sid a s = Some s'" shows "keys_inv s'"
proof -
  from assms(2) obtain q answers1 slot where
    q: "current_question s = Some q" and
    a1: "(case obj_get (answers q) sid of
        Some slot \<Rightarrow> Some (answers q)
      | None \<Rightarrow> (case obj_get (students s) sid of
                   None \<Rightarrow> None
                 | Some stuInfo \<Rightarrow> Some (obj_set sid (empty_answer (stu_username stuInfo)) (answers q))))
     = Some answers1" and
    s': "s' = set_current (q\<lparr>answers := obj_set sid (slot\<lparr>explanation := a\<rparr>) answers1\<rparr>) s"
    unfolding submit_explanation_def by (auto split: option.splits)
  from submit_slot_keys [OF assms(1) q a1] show ?thesis
    unfolding s' by (intro keys_inv_slot [OF assms(1) q]) (auto simp: keys_obj_set distinct_obj_set)
qed

lemma keys_inv_join:
  assumes "keys_inv s" shows "keys_inv (join_session ws sid name s)"
proof (cases "current_question s")
  case None
  then show ?thesis using assms
    by (auto simp: join_session_def Let_def keys_inv_def keys_obj_set distinct_obj_set)
next
  case (Some q)
  let ?s1 = "s\<lparr>students := obj_set sid \<lparr>stu_username = name, stu_ws = ws\<rparr> (students s)\<rparr>"
  let ?q' = "q\<lparr>answers := obj_set sid (empty_answer name) (answers q)\<rparr>"
  have js: "join_session ws sid name s = set_current ?q' ?s1"
    using Some by (simp add: join_session_def Let_def)
  have q: "set (obj_keys (answers q)) \<subseteq> set (obj_keys (students s))" "distinct (obj_keys (answers q))"
    "set (obj_keys (students s)) \<subseteq> set (obj_keys (answers q))"
    using assms Some current_question_in_set [OF Some] by (auto simp: keys_inv_def)
  have k2: "distinct (obj_keys (answers x)) \<and> set (obj_keys (answers x)) \<subseteq> set (obj_keys (students ?s1))"
    if "x \<in> set (questions (set_current ?q' ?s1))" for x
    using in_set_current [OF that] assms q
    by (auto simp: keys_inv_def keys_obj_set distinct_obj_set)
  have cq: "current_question (set_current ?q' ?s1) = Some ?q'"
    using Some by (intro current_question_set_current [where q = q]) simp
  show ?thesis
    unfolding js keys_inv_def
    using assms k2 cq q by (auto simp: keys_inv_def keys_obj_set distinct_obj_set)
qed

lemma keys_inv_start:
  assumes "keys_inv s" shows "keys_inv (start_mcq qText options s)"
proof -
  let ?new = "add_answer_slots (students s)
                      \<lparr>questionNumber = length (questions s) + 1, questionText = str_or_empty qText,
                       mcqOptions = options, q_stage = MCQ, answers = []\<rparr>"
  obtain qs' where q: "questions (start_mcq qText options s) = qs' @ [?new]"
         "length qs' = length (questions s)"
         "\<forall>i < length qs'. qs' ! i = questions s ! i \<or> qs' ! i = (questions s ! i)\<lparr>q_stage := DONE\<rparr>"
    using start_mcq_shape [of qText options s] by blast
  have old: "distinct (obj_keys (answers x)) \<and> set (obj_keys (answers x)) \<subseteq> set (obj_keys (students s))"
    if "x \<in> set qs'" for x
  proof -
    from that obtain i where i: "i < length qs'" "x = qs' ! i" by (auto simp: in_set_conv_nth)
    then have m: "questions s ! i \<in> set (questions s)" using q(2) by simp
    have "answers x = answers (questions s ! i)" using q(3) i by auto
    then show ?thesis using m assms by (auto simp: keys_inv_def)
  qed
  have new: "set (obj_keys (answers ?new)) = set (obj_keys (students s))" "distinct (obj_keys (answers ?new))"
    by (simp_all add: keys_add_answer_slots distinct_add_answer_slots obj_keys_Nil)
  have cq: "current_question (start_mcq qText options s) = Some ?new"
    using q(1,2) by (simp add: current_question_def Let_def nth_append)
  show ?thesis
    unfolding keys_inv_def using assms old new cq q(1) by (auto simp: keys_inv_def)
qed

lemma order_inv_new: "order_inv (new_session ws)"
  by (simp add: order_inv_def new_session_def obj_keys_Nil js_key_order_def)

lemma order_inv_fields [simp]:
  "order_inv (s\<lparr>stage := x\<rparr>) = order_inv s"
  "order_inv (s\<lparr>teacher := y\<rparr>) = order_inv s"
  by (simp_all add: order_inv_def)

lemma order_inv_set_current:
  assumes "order_inv s" "js_key_order (obj_keys (answers q'))"
  shows "order_inv (set_current q' s)"
proof -
  have "js_key_order (obj_keys (answers x))" if "x \<in> set (questions (set_current q' s))" for x
    using in_set_current [OF that] assms by (auto simp: order_inv_def)
  then show ?thesis using assms(1) by (auto simp: order_inv_def)
qed

lemma order_inv_current: "order_inv s \<Longrightarrow> current_question s = Some q \<Longrightarrow> js_key_order (obj_keys (answers q))"
  using current_question_in_set [of s q] by (auto simp: order_inv_def)

lemma order_inv_next: "order_inv s \<Longrightarrow> order_inv (next_explanation s)"
  by (auto simp: next_explanation_def Let_def split: option.splits
      intro!: order_inv_set_current dest: order_inv_current)

lemma order_inv_students:
  "order_inv s \<Longrightarrow> order_inv (s\<lparr>students := obj_set sid stu (students s)\<rparr>)"
  by (simp add: order_inv_def order_obj_set)

lemma order_inv_join: "order_inv s \<Longrightarrow> order_inv (join_session ws sid name s)"
  using order_inv_students [of s sid "\<lparr>stu_username = name, stu_ws = ws\<rparr>"]
  by (auto simp: join_session_def Let_def order_obj_set split: option.splits
      intro!: order_inv_set_current dest: order_inv_current)

lemma order_inv_submit:
  assumes "keys_inv s" "order_inv s" "submit_mcq sid a s = Some s'" shows "order_inv s'"
proof -
  from assms(3) obtain q answers1 slot where
    q: "current_question s = Some q" and
    a1: "(case obj_get (answers q) sid of
        Some slot \<Rightarrow> Some (answers q)
      | None \<Rightarrow> (case obj_get (students s) sid of
                   None \<Rightarrow> None
                 | Some stuInfo \<Rightarrow> Some (obj_set sid (empty_answer (stu_username stuInfo)) (answers q))))
     = Some answers1" and
    s': "s' = set_current (q\<lparr>answers := obj_set sid (slot\<lparr>mcqAnswer := Some a\<rparr>) answers1\<rparr>) s"
    unfolding submit_mcq_def by (auto split: option.splits)
  from submit_slot_keys [OF assms(1) q a1] order_inv_current [OF assms(2) q] show ?thesis
    unfolding s' by (intro order_inv_set_current [OF assms(2)]) (simp add: order_obj_set)
qed

lemma order_inv_explanation:
  assumes "keys_inv s" "order_inv s" "submit_explanation sid a s = Some s'" shows "order_inv s'"
proof -
  from assms(3) obtain q answers1 slot where
    q: "current_question s = Some q" and
    a1: "(case obj_get (answers q) sid of
        Some slot \<Rightarrow> Some (answers q)
      | None \<Rightarrow> (case obj_get (students s) sid of
                   None \<Rightarrow> None
                 | Some stuInfo \<Rightarrow> Some (obj_set sid (empty_answer (stu_username stuInfo)) (answers q))))
     = Some answers1" and
    s': "s' = set_current (q\<lparr>answers := obj_set sid (slot\<lparr>explanation := a\<rparr>) answers1\<rparr>) s"
    unfolding submit_explanation_def by (auto split: option.splits)
  from submit_slot_keys [OF assms(1) q a1] order_inv_current [OF assms(2) q] show ?thesis
    unfolding s' by (intro order_inv_set_current [OF assms(2)]) (simp add: order_obj_set)
qed

lemma order_inv_start:
  assumes "order_inv s" shows "order_inv (start_mcq qText options s)"
proof -
  let ?new = "add_answer_slots (students s)
                      \<lparr>questionNumber = length (questions s) + 1, questionText = str_or_empty qText,
                       mcqOptions = options, q_stage = MCQ, answers = []\<rparr>"
  obtain qs' where q: "questions (start_mcq qText options s) = qs' @ [?new]"
         "length qs' = length (questions s)"
         "\<forall>i < length qs'. qs' ! i = questions s ! i \<or> qs' ! i = (questions s ! i)\<lparr>q_stage := DONE\<rparr>"
    using start_mcq_shape [of qText options s] by blast
  have old: "js_key_order (obj_keys (answers x))" if "x \<in> set qs'" for x
  proof -
    from that obtain i where i: "i < length qs'" "x = qs' ! i" by (auto simp: in_set_conv_nth)
    then have m: "questions s ! i \<in> set (questions s)" using q(2) by simp
    have "answers x = answers (questions s ! i)" using q(3) i by auto
    then show ?thesis using m assms by (auto simp: order_inv_def)
  qed
  have new: "js_key_order (obj_keys (answers ?new))"
    by (intro order_add_answer_slots) (simp add: obj_keys_Nil js_key_order_def)
  show ?thesis
    unfolding order_inv_def using assms old new q(1) by (auto simp: order_inv_def)
qed

subsection \<open>Every reachable state satisfies the invariants\<close>

lemma session_inv_new: "session_inv (new_session ws)"
  by (simp add: session_inv_def index_inv_new keys_inv_new order_inv_new)

lemma session_inv_step:
  assumes "session_step s s'" "session_inv s" shows "session_inv s'"
  using assms
proof (cases rule: session_step.cases)
  case (step_start qText options)
  then show ?thesis using assms(2)
    by (simp add: session_inv_def index_inv_start keys_inv_start order_inv_start)
next
  case step_next
  then show ?thesis using assms(2)
    by (simp add: session_inv_def index_inv_next keys_inv_next order_inv_next)
next
  case step_stop
  then show ?thesis using assms(2) by (simp add: session_inv_def)
next
  case (step_rejoin ws)
  then show ?thesis using assms(2) by (simp add: session_inv_def)
next
  case (step_join ws studentId name)
  then show ?thesis using assms(2)
    by (simp add: session_inv_def index_inv_join keys_inv_join order_inv_join)
next
  case (step_mcq studentId ans)
  then show ?thesis using assms(2)
    by (auto simp: session_inv_def intro: index_inv_submit keys_inv_submit order_inv_submit)
next
  case (step_explanation studentId expl)
  then show ?thesis using assms(2)
    by (auto simp: session_inv_def intro: index_inv_explanation keys_inv_explanation order_inv_explanation)
qed

lemma next_explanation_index [simp]:
  "currentQuestionIndex (next_explanation s) = currentQuestionIndex s"
  "length (questions (next_explanation s)) = length (questions s)"
  by (simp_all add: next_explanation_def Let_def split: option.splits)

lemma join_session_index [simp]:
  "currentQuestionIndex (join_session ws sid name s) = currentQuestionIndex s"
  "length (questions (join_session ws sid name s)) = length (questions s)"
  by (simp_all add: join_session_def Let_def split: option.splits)

lemma submit_mcq_index:
  "submit_mcq sid a s = Some s' \<Longrightarrow>
     currentQuestionIndex s' = currentQuestionIndex s \<and> length (questions s') = length (questions s)"
  by (auto simp: submit_mcq_def split: option.splits)

lemma submit_explanation_index:
  "submit_explanation sid a s = Some s' \<Longrightarrow>
     currentQuestionIndex s' = currentQuestionIndex s \<and> length (questions s') = length (questions s)"
  by (auto simp: submit_explanation_def split: option.splits)

lemma session_step_index_mono:
  assumes "session_step s s'" "index_inv s"
  shows "currentQuestionIndex s \<le> currentQuestionIndex s'"
  using assms
  by (cases rule: session_step.cases)
     (auto simp: index_inv_def dest: submit_mcq_index submit_explanation_index)



lemma on_message_sessions:
  assumes "on_message ws e m st = Some (st', out)" "sessions st' c = Some s'"
  shows "sessions st c = Some s' \<or> (\<exists>s. sessions st c = Some s \<and> session_step s s') \<or>
         (m = TEACHER_CREATE_SESSION \<and> c = generateSessionCode (randomBytes e) \<and> s' = new_session ws)"
proof (cases m)
  case TEACHER_CREATE_SESSION
  then show ?thesis using assms
    by (auto simp: on_TEACHER_CREATE_SESSION_def Let_def split: if_splits)
next
  case (TEACHER_START_MCQ c' qText options)
  then show ?thesis using assms
    by (auto simp: on_TEACHER_START_MCQ_def Let_def split: option.splits if_splits intro: session_step.intros)
next
  case (TEACHER_NEXT_EXPLANATION c')
  then show ?thesis using assms
    by (auto simp: on_TEACHER_NEXT_EXPLANATION_def Let_def split: option.splits if_splits intro: session_step.intros)
next
  case (TEACHER_STOP_QUIZ c')
  show ?thesis
  proof (cases "sessions st c'")
    case None
    then show ?thesis using assms TEACHER_STOP_QUIZ
      by (auto simp: on_TEACHER_STOP_QUIZ_def split: if_splits)
  next
    case (Some s)
    then show ?thesis using assms TEACHER_STOP_QUIZ stop_own [OF Some]
      by (auto split: if_splits intro: session_step.intros)
  qed
next
  case (TEACHER_CLOSE_PAGE c')
  show ?thesis
  proof (cases "sessions st c'")
    case None
    then show ?thesis using assms TEACHER_CLOSE_PAGE
      by (auto simp: on_TEACHER_CLOSE_PAGE_def split: if_splits)
  next
    case (Some s)
    then show ?thesis using assms TEACHER_CLOSE_PAGE close_page_own [OF Some]
      by (auto split: if_splits)
  qed
next
  case (TEACHER_DOWNLOAD_CSV c')
  then show ?thesis using assms
    by (auto simp: on_TEACHER_DOWNLOAD_CSV_def Let_def split: option.splits if_splits)
next
  case (TEACHER_REJOIN_SESSION c')
  then show ?thesis using assms
    by (auto simp: on_TEACHER_REJOIN_SESSION_def Let_def split: option.splits if_splits inherited.splits
        intro: session_step.intros)
next
  case (STUDENT_JOIN_SESSION c' name)
  then show ?thesis using assms
    by (auto simp: on_STUDENT_JOIN_SESSION_def Let_def split: option.splits if_splits intro: session_step.intros)
next
  case (STUDENT_SUBMIT_MCQ c' sid a)
  then show ?thesis using assms
    by (auto simp: on_STUDENT_SUBMIT_MCQ_def Let_def split: option.splits if_splits intro: session_step.intros)
next
  case (STUDENT_EXPLANATION_UPDATE c' sid a)
  then show ?thesis using assms
    by (auto simp: on_STUDENT_EXPLANATION_UPDATE_def Let_def split: option.splits if_splits intro: session_step.intros)
next
  case UNKNOWN_TYPE
  then show ?thesis using assms by simp
next
  case INVALID_JSON
  then show ?thesis using assms by simp
qed

lemma fold_close_ws_fields:
  "sessions (fold close_ws xs st) = sessions st"
  "prototype (fold close_ws xs st) = prototype st"
  "clients (fold close_ws xs st) = clients st"
  "isAlive (fold close_ws xs st) = isAlive st"
  "totalUptime (fold close_ws xs st) = totalUptime st"
  "keepAliveInterval (fold close_ws xs st) = keepAliveInterval st"
  by (induction xs arbitrary: st; simp add: close_ws_def)+

lemma probe_fields:
  "sessions (fst (probe ws acc)) = sessions (fst acc)"
  "prototype (fst (probe ws acc)) = prototype (fst acc)"
  "clients (fst (probe ws acc)) = clients (fst acc)"
  "totalUptime (fst (probe ws acc)) = totalUptime (fst acc)"
  "keepAliveInterval (fst (probe ws acc)) = keepAliveInterval (fst acc)"
  by (cases acc; simp add: probe_def terminate_ws_def)+

lemma fold_probe_fields:
  "sessions (fst (fold probe xs acc)) = sessions (fst acc)"
  "prototype (fst (fold probe xs acc)) = prototype (fst acc)"
  "clients (fst (fold probe xs acc)) = clients (fst acc)"
  "totalUptime (fst (fold probe xs acc)) = totalUptime (fst acc)"
  "keepAliveInterval (fst (fold probe xs acc)) = keepAliveInterval (fst acc)"
  by (induction xs arbitrary: acc; simp add: probe_fields)+

lemma sessions_on_tick:
  "sessions (fst (on_tick st)) = sessions st"
  "prototype (fst (on_tick st)) = prototype st"
  by (simp_all add: on_tick_def Let_def fold_close_ws_fields fold_probe_fields)

lemma step_sessions:
  assumes "step i st = Some (st', out)" "sessions st' c = Some s'"
  shows "sessions st c = Some s' \<or> (\<exists>s. sessions st c = Some s \<and> session_step s s') \<or>
         (\<exists>ws e. i = Message ws e TEACHER_CREATE_SESSION \<and> c = generateSessionCode (randomBytes e)
            \<and> s' = new_session ws)"
proof (cases i)
  case (Message ws e m)
  then show ?thesis using on_message_sessions [of ws e m st st' out c s'] assms by auto
next
  case Tick
  then have "st' = fst (on_tick st)" using assms(1) by auto
  then show ?thesis using assms(2) by (simp add: sessions_on_tick)
qed (use assms in auto)

lemma server_inv_step: "server_inv st \<Longrightarrow> step i st = Some (st', out) \<Longrightarrow> server_inv st'"
  unfolding server_inv_def
  using step_sessions session_inv_step session_inv_new by blast

lemma server_inv_init: "server_inv init"
  by (simp add: server_inv_def init_def)

lemma reachable_inv: "reachable st \<Longrightarrow> server_inv st"
  by (induction rule: reachable.induct) (auto simp: server_inv_init intro: server_inv_step)

lemma reachable_session_inv: "reachable st \<Longrightarrow> sessions st c = Some s \<Longrightarrow> session_inv s"
  using reachable_inv by (auto simp: server_inv_def)

text \<open>What a message does to \<open>Object.prototype\<close>.\<close>

lemma inherited_prop_Object_prototype:
  "inherited_prop proto k = Object_prototype \<longleftrightarrow> k = ''__proto__''"
  by (simp add: inherited_prop_def split: option.splits)

lemma keys_assign_inherited:
  "set (obj_keys (assign_inherited x field v proto)) \<subseteq> insert field (set (obj_keys proto))"
  by (cases x) (auto simp: assign_inherited_def keys_obj_set)

lemma assign_inherited_other: "x \<noteq> Object_prototype \<Longrightarrow> assign_inherited x field v proto = proto"
  by (cases x) (simp_all add: assign_inherited_def)

lemma on_message_prototype:
  assumes "on_message ws e m st = Some (st', out)"
  shows "set (obj_keys (prototype st')) \<subseteq> set (obj_keys (prototype st)) \<union> {''mcqAnswer'', ''explanation''} \<and>
         (\<not> names_prototype (Message ws e m) \<longrightarrow> prototype st' = prototype st)"
proof (cases m)
  case (TEACHER_STOP_QUIZ c)
  show ?thesis
  proof (cases "sessions st c")
    case None
    then show ?thesis using assms TEACHER_STOP_QUIZ
      by (auto simp: on_TEACHER_STOP_QUIZ_def split: if_splits)
  next
    case (Some s)
    then show ?thesis using assms TEACHER_STOP_QUIZ stop_own [OF Some] by auto
  qed
next
  case (TEACHER_CLOSE_PAGE c)
  show ?thesis
  proof (cases "sessions st c")
    case None
    then show ?thesis using assms TEACHER_CLOSE_PAGE
      by (auto simp: on_TEACHER_CLOSE_PAGE_def split: if_splits)
  next
    case (Some s)
    then show ?thesis using assms TEACHER_CLOSE_PAGE close_page_own [OF Some] by auto
  qed
next
  case (STUDENT_SUBMIT_MCQ c sid a)
  have "sid \<noteq> ''__proto__'' \<Longrightarrow>
          assign_inherited (inherited_prop (prototype st) sid) ''mcqAnswer'' (PNum a) (prototype st) = prototype st"
    by (rule assign_inherited_other) (simp add: inherited_prop_Object_prototype)
  then show ?thesis
    using assms STUDENT_SUBMIT_MCQ
      keys_assign_inherited [of "inherited_prop (prototype st) sid" "''mcqAnswer''" "PNum a" "prototype st"]
    by (auto simp: on_STUDENT_SUBMIT_MCQ_def Let_def split: option.splits if_splits)
next
  case (STUDENT_EXPLANATION_UPDATE c sid a)
  have "sid \<noteq> ''__proto__'' \<Longrightarrow>
          assign_inherited (inherited_prop (prototype st) sid) ''explanation'' (PStr a) (prototype st) = prototype st"
    by (rule assign_inherited_other) (simp add: inherited_prop_Object_prototype)
  then show ?thesis
    using assms STUDENT_EXPLANATION_UPDATE
      keys_assign_inherited [of "inherited_prop (prototype st) sid" "''explanation''" "PStr a" "prototype st"]
    by (auto simp: on_STUDENT_EXPLANATION_UPDATE_def Let_def split: option.splits if_splits)
qed (use assms in \<open>auto simp: on_TEACHER_CREATE_SESSION_def on_TEACHER_START_MCQ_def
      on_TEACHER_NEXT_EXPLANATION_def on_TEACHER_DOWNLOAD_CSV_def on_TEACHER_REJOIN_SESSION_def
      on_STUDENT_JOIN_SESSION_def Let_def split: option.splits if_splits inherited.splits\<close>)

lemma step_prototype:
  assumes "step i st = Some (st', out)"
  shows "set (obj_keys (prototype st')) \<subseteq> set (obj_keys (prototype st)) \<union> {''mcqAnswer'', ''explanation''} \<and>
         (\<not> names_prototype i \<longrightarrow> prototype st' = prototype st)"
proof (cases i)
  case (Message ws e m)
  then show ?thesis using on_message_prototype [of ws e m st st' out] assms by simp
next
  case Tick
  then have "st' = fst (on_tick st)" using assms by auto
  then show ?thesis by (auto simp: sessions_on_tick)
qed (use assms in auto)


text \<open>The codes of the registry find nothing on \<open>Object.prototype\<close>.\<close>

lemma length_generateSessionCode: "length (generateSessionCode buf) = 6"
  by (cases buf) (simp add: generateSessionCode_def toUpperCase_def toString_hex_def hex_byte_def)

lemma codes_inv_step:
  assumes "codes_inv st" "step i st = Some (st', out)"
  shows "codes_inv st'"
proof -
  have c: "length c = 6" if "sessions st' c = Some s'" for c s'
    using step_sessions [OF assms(2) that] assms(1)
    by (auto simp: codes_inv_def length_generateSessionCode)
  have p: "set (obj_keys (prototype st')) \<subseteq> {''mcqAnswer'', ''explanation''}"
    using step_prototype [OF assms(2)] assms(1) by (auto simp: codes_inv_def)
  show ?thesis unfolding codes_inv_def using c p by blast
qed

lemma reachable_codes_inv: "reachable st \<Longrightarrow> codes_inv st"
proof (induction rule: reachable.induct)
  case reachable_init
  show ?case by (simp add: codes_inv_def init_def obj_keys_Nil)
next
  case (reachable_step st i st' out)
  then show ?case using codes_inv_step by blast
qed

lemma code_not_inherited:
  assumes "codes_inv st" "length c = 6"
  shows "inherited_prop (prototype st) c = Undefined"
proof -
  have "c \<notin> set (obj_keys (prototype st))"
    using assms by (auto simp: codes_inv_def)
  then have "obj_get (prototype st) c = None" by (simp add: obj_get_None_iff)
  moreover have "c \<noteq> ''__proto__''" "c \<notin> set builtin_names"
    using assms(2) by (auto simp: builtin_names_def)
  ultimately show ?thesis by (simp add: inherited_prop_def)
qed



subsection \<open>The index of the current question\<close>

text \<open>
  C3. In every reachable state and for every session of the registry: the index of the
  current question is \<open>-1\<close> or a valid index into \<open>questions\<close>, and a new session starts at
  \<open>-1\<close>; a start-question on the session raises the index by exactly one and makes
  \<open>questions\<close> longer by exactly one, the number of the new question is its 1-based position
  (as is the number of every question); and no input lowers the index of the session. (A
  creation that draws the same code puts a different, new session under the code; that is
  the subject of C2.)
\<close>

theorem question_index_progress:
  assumes "reachable st" "sessions st sessionCode = Some s"
  shows "(currentQuestionIndex s = - 1 \<or>
            (0 \<le> currentQuestionIndex s \<and> currentQuestionIndex s < int (length (questions s)))) \<and>
         currentQuestionIndex (new_session ws) = - 1 \<and>
         (\<exists>st' out s'.
               step (Message ws e (TEACHER_START_MCQ sessionCode qText options)) st = Some (st', out) \<and>
               sessions st' sessionCode = Some s' \<and>
               currentQuestionIndex s' = currentQuestionIndex s + 1 \<and>
               length (questions s') = length (questions s) + 1 \<and>
               questionNumber (last (questions s')) = length (questions s') \<and>
               (\<forall>k < length (questions s'). questionNumber (questions s' ! k) = k + 1)) \<and>
         (\<forall>st'' out'' s''. step i st = Some (st'', out'') \<and> sessions st'' sessionCode = Some s'' \<longrightarrow>
               (\<exists>ws' e'. i = Message ws' e' TEACHER_CREATE_SESSION \<and>
                          generateSessionCode (randomBytes e') = sessionCode) \<or>
               currentQuestionIndex s \<le> currentQuestionIndex s'')"
proof -
  have inv: "index_inv s"
    using reachable_session_inv [OF assms] by (simp add: session_inv_def)
  have a: "currentQuestionIndex s = - 1 \<or>
            (0 \<le> currentQuestionIndex s \<and> currentQuestionIndex s < int (length (questions s)))"
    using inv by (auto simp: index_inv_def)
  have b: "currentQuestionIndex (new_session ws) = - 1"
    by (simp add: new_session_def)
  let ?s' = "start_mcq qText options s"
  obtain st' out where s':
    "step (Message ws e (TEACHER_START_MCQ sessionCode qText options)) st = Some (st', out)"
    "sessions st' sessionCode = Some ?s'"
    using assms(2) by (simp add: on_TEACHER_START_MCQ_def Let_def)
  have inv': "index_inv ?s'" by (rule index_inv_start [OF inv])
  have len: "length (questions ?s') = length (questions s) + 1"
    by (simp add: length_start_mcq)
  have idx: "currentQuestionIndex ?s' = currentQuestionIndex s + 1"
    using inv by (simp add: index_inv_def)
  have nums: "\<forall>k < length (questions ?s'). questionNumber (questions ?s' ! k) = k + 1"
    using inv' by (simp add: index_inv_def)
  have "questions ?s' \<noteq> []" using len by auto
  then have "last (questions ?s') = questions ?s' ! (length (questions ?s') - 1)"
    by (rule last_conv_nth)
  then have lastn: "questionNumber (last (questions ?s')) = length (questions ?s')"
    using nums len by simp
  have c: "\<exists>st' out s'.
               step (Message ws e (TEACHER_START_MCQ sessionCode qText options)) st = Some (st', out) \<and>
               sessions st' sessionCode = Some s' \<and>
               currentQuestionIndex s' = currentQuestionIndex s + 1 \<and>
               length (questions s') = length (questions s) + 1 \<and>
               questionNumber (last (questions s')) = length (questions s') \<and>
               (\<forall>k < length (questions s'). questionNumber (questions s' ! k) = k + 1)"
    using s' idx len lastn nums by blast
  have d: "(\<exists>ws' e'. i = Message ws' e' TEACHER_CREATE_SESSION \<and>
                          generateSessionCode (randomBytes e') = sessionCode) \<or>
               currentQuestionIndex s \<le> currentQuestionIndex s''"
    if "step i st = Some (st'', out'')" "sessions st'' sessionCode = Some s''" for st'' out'' s''
    using step_sessions [OF that] assms(2) session_step_index_mono [OF _ inv] by auto
  show ?thesis using a b c d by blast
qed

theorem question_index_progress_witness:
  "reachable (after run_question) \<and>
   currentQuestionIndex (the (sessions (after run_question) ''A1B2C3'')) = 0 \<and>
   length (questions (the (sessions (after run_question) ''A1B2C3''))) = 1 \<and>
   currentQuestionIndex (the (sessions (fst (the (step (Message 0 env_A1B2C3 (TEACHER_START_MCQ ''A1B2C3'' ''Q2'' 2))
      (after run_question)))) ''A1B2C3'')) = 1 \<and>
   map questionNumber (questions (the (sessions (fst (the (step (Message 0 env_A1B2C3 (TEACHER_START_MCQ ''A1B2C3'' ''Q2'' 2))
      (after run_question)))) ''A1B2C3''))) = [1, 2]"
proof -
  have "run run_question init = Some (after run_question)"
    by (simp add: run_defs handler_defs Let_def)
  then have r: "reachable (after run_question)" by (rule reachable_after)
  have h: "sessions (after run_question) ''A1B2C3''
             = Some (the (sessions (after run_question) ''A1B2C3''))"
    by (simp add: run_defs handler_defs Let_def)
  have e: "currentQuestionIndex (the (sessions (after run_question) ''A1B2C3'')) = 0 \<and>
   length (questions (the (sessions (after run_question) ''A1B2C3''))) = 1 \<and>
   currentQuestionIndex (the (sessions (fst (the (step (Message 0 env_A1B2C3 (TEACHER_START_MCQ ''A1B2C3'' ''Q2'' 2))
      (after run_question)))) ''A1B2C3'')) = 1 \<and>
   map questionNumber (questions (the (sessions (fst (the (step (Message 0 env_A1B2C3 (TEACHER_START_MCQ ''A1B2C3'' ''Q2'' 2))
      (after run_question)))) ''A1B2C3''))) = [1, 2]"
    using question_index_progress [OF r h, of 0 env_A1B2C3 "''Q2''" 2 Tick]
    by (simp add: run_defs handler_defs Let_def)
  show ?thesis using r e by blast
qed



subsection \<open>Joining\<close>

lemma count_distinct: "distinct xs \<Longrightarrow> x \<in> set xs \<Longrightarrow> length (filter (\<lambda>k. k = x) xs) = 1"
  by (induction xs) (auto simp: filter_empty_conv)

text \<open>
  C7. In a reachable state, let a participant join a session and be given the id \<open>sid\<close>.
  If the index of the current question is \<open>-1\<close>, the session has no question afterwards, so
  no question holds a record for \<open>sid\<close>. Otherwise the join writes exactly one record: the
  current question holds, under \<open>sid\<close> and once only, the record with the supplied name,
  \<open>mcqAnswer = null\<close> and \<open>explanation = ""\<close>; the records of the other participants in the
  current question and all other questions are as they were; and when \<open>sid\<close> was not yet
  the id of a participant of the session, no other question holds a record for \<open>sid\<close>.
\<close>

theorem join_answer_records:
  assumes "reachable st" "sessions st sessionCode = Some s"
  shows "(let sid = toString_hex (randomBytes e)
          in \<exists>st' out s'.
               step (Message ws e (STUDENT_JOIN_SESSION sessionCode name)) st = Some (st', out) \<and>
               sessions st' sessionCode = Some s' \<and>
               length (questions s') = length (questions s) \<and>
               (currentQuestionIndex s = - 1 \<longrightarrow>
                  questions s' = [] \<and> (\<forall>q \<in> set (questions s'). obj_get (answers q) sid = None)) \<and>
               (currentQuestionIndex s \<noteq> - 1 \<longrightarrow>
                  (let i = nat (currentQuestionIndex s)
                   in i < length (questions s) \<and>
                      obj_get (answers (questions s' ! i)) sid
                        = Some \<lparr>username = name, mcqAnswer = None, explanation = []\<rparr> \<and>
                      length (filter (\<lambda>k. k = sid) (obj_keys (answers (questions s' ! i)))) = 1 \<and>
                      (\<forall>k. k \<noteq> sid \<longrightarrow>
                         obj_get (answers (questions s' ! i)) k = obj_get (answers (questions s ! i)) k) \<and>
                      (\<forall>j < length (questions s). j \<noteq> i \<longrightarrow> questions s' ! j = questions s ! j) \<and>
                      (obj_get (students s) sid = None \<longrightarrow>
                         (\<forall>j < length (questions s). j \<noteq> i \<longrightarrow>
                            obj_get (answers (questions s' ! j)) sid = None)))))"
proof -
  define sid where "sid = toString_hex (randomBytes e)"
  let ?s' = "join_session ws sid name s"
  have inv: "session_inv s" by (rule reachable_session_inv [OF assms])
  then have ii: "index_inv s" and ki: "keys_inv s" by (simp_all add: session_inv_def)
  obtain st' out where s':
    "step (Message ws e (STUDENT_JOIN_SESSION sessionCode name)) st = Some (st', out)"
    "sessions st' sessionCode = Some ?s'"
    using assms(2) by (simp add: on_STUDENT_JOIN_SESSION_def Let_def sid_def)
  have len: "length (questions ?s') = length (questions s)" by simp
  have none: "questions ?s' = [] \<and> (\<forall>q \<in> set (questions ?s'). obj_get (answers q) sid = None)"
    if "currentQuestionIndex s = - 1"
  proof -
    from that ii have "questions s = []" by (simp add: index_inv_def)
    then have "length (questions ?s') = 0" using len by simp
    then have "questions ?s' = []" by (simp only: length_0_conv)
    then show ?thesis by simp
  qed
  have some: "(let i = nat (currentQuestionIndex s)
                   in i < length (questions s) \<and>
                      obj_get (answers (questions ?s' ! i)) sid
                        = Some \<lparr>username = name, mcqAnswer = None, explanation = []\<rparr> \<and>
                      length (filter (\<lambda>k. k = sid) (obj_keys (answers (questions ?s' ! i)))) = 1 \<and>
                      (\<forall>k. k \<noteq> sid \<longrightarrow>
                         obj_get (answers (questions ?s' ! i)) k = obj_get (answers (questions s ! i)) k) \<and>
                      (\<forall>j < length (questions s). j \<noteq> i \<longrightarrow> questions ?s' ! j = questions s ! j) \<and>
                      (obj_get (students s) sid = None \<longrightarrow>
                         (\<forall>j < length (questions s). j \<noteq> i \<longrightarrow>
                            obj_get (answers (questions ?s' ! j)) sid = None)))"
    if ne: "currentQuestionIndex s \<noteq> - 1"
  proof -
    let ?i = "nat (currentQuestionIndex s)"
    let ?q = "questions s ! ?i"
    let ?q' = "?q\<lparr>answers := obj_set sid (empty_answer name) (answers ?q)\<rparr>"
    from ii have eq: "currentQuestionIndex s = int (length (questions s)) - 1"
      by (simp add: index_inv_def)
    with ne have pos: "0 < length (questions s)" by auto
    have i: "0 \<le> currentQuestionIndex s" "?i < length (questions s)"
      using eq pos by linarith+
    then have cq: "current_question s = Some ?q"
      by (simp add: current_question_def Let_def)
    have qs: "questions ?s' = (questions s)[?i := ?q']"
      using cq by (simp add: join_session_def Let_def set_current_def)
    have q'i: "questions ?s' ! ?i = ?q'" using qs i by simp
    have rec: "obj_get (answers (questions ?s' ! ?i)) sid
                 = Some \<lparr>username = name, mcqAnswer = None, explanation = []\<rparr>"
      by (simp add: q'i get_obj_set empty_answer_def)
    have dq: "distinct (obj_keys (answers ?q))"
      using ki i nth_mem [OF i(2)] by (auto simp: keys_inv_def)
    have cnt: "length (filter (\<lambda>k. k = sid) (obj_keys (answers (questions ?s' ! ?i)))) = 1"
      unfolding q'i using dq by (intro count_distinct) (simp_all add: distinct_obj_set keys_obj_set)
    have oth: "\<forall>k. k \<noteq> sid \<longrightarrow>
                 obj_get (answers (questions ?s' ! ?i)) k = obj_get (answers (questions s ! ?i)) k"
      by (simp add: q'i get_obj_set)
    have same: "\<forall>j < length (questions s). j \<noteq> ?i \<longrightarrow> questions ?s' ! j = questions s ! j"
      by (simp add: qs)
    have fresh: "\<forall>j < length (questions s). j \<noteq> ?i \<longrightarrow> obj_get (answers (questions ?s' ! j)) sid = None"
      if f: "obj_get (students s) sid = None"
    proof (intro allI impI)
      fix j assume j: "j < length (questions s)" "j \<noteq> ?i"
      have "set (obj_keys (answers (questions s ! j))) \<subseteq> set (obj_keys (students s))"
        using ki nth_mem [OF j(1)] by (auto simp: keys_inv_def)
      moreover have "sid \<notin> set (obj_keys (students s))" using f by (simp add: obj_get_None_iff)
      ultimately have "obj_get (answers (questions s ! j)) sid = None"
        by (auto simp: obj_get_None_iff)
      then show "obj_get (answers (questions ?s' ! j)) sid = None" using same j by simp
    qed
    show ?thesis unfolding Let_def using i(2) rec cnt oth same fresh by blast
  qed
  have "\<exists>st' out s'.
               step (Message ws e (STUDENT_JOIN_SESSION sessionCode name)) st = Some (st', out) \<and>
               sessions st' sessionCode = Some s' \<and>
               length (questions s') = length (questions s) \<and>
               (currentQuestionIndex s = - 1 \<longrightarrow>
                  questions s' = [] \<and> (\<forall>q \<in> set (questions s'). obj_get (answers q) sid = None)) \<and>
               (currentQuestionIndex s \<noteq> - 1 \<longrightarrow>
                  (let i = nat (currentQuestionIndex s)
                   in i < length (questions s) \<and>
                      obj_get (answers (questions s' ! i)) sid
                        = Some \<lparr>username = name, mcqAnswer = None, explanation = []\<rparr> \<and>
                      length (filter (\<lambda>k. k = sid) (obj_keys (answers (questions s' ! i)))) = 1 \<and>
                      (\<forall>k. k \<noteq> sid \<longrightarrow>
                         obj_get (answers (questions s' ! i)) k = obj_get (answers (questions s ! i)) k) \<and>
                      (\<forall>j < length (questions s). j \<noteq> i \<longrightarrow> questions s' ! j = questions s ! j) \<and>
                      (obj_get (students s) sid = None \<longrightarrow>
                         (\<forall>j < length (questions s). j \<noteq> i \<longrightarrow>
                            obj_get (answers (questions s' ! j)) sid = None))))"
    using s' len none some
    by (intro exI [of _ st'] exI [of _ out] exI [of _ ?s']) (simp only: simp_thms, blast)
  then show ?thesis unfolding Let_def sid_def .
qed

theorem join_answer_records_witness:
  "reachable (after run_created) \<and> reachable (after run_joined_A) \<and>
   currentQuestionIndex (the (sessions (after run_created) ''A1B2C3'')) = - 1 \<and>
   questions (the (sessions (fst (the (step (Message 1 env_abcdef (STUDENT_JOIN_SESSION ''A1B2C3'' ''A''))
      (after run_created)))) ''A1B2C3'')) = [] \<and>
   currentQuestionIndex (the (sessions (after run_joined_A) ''A1B2C3'')) = 0 \<and>
   obj_get (students (the (sessions (after run_joined_A) ''A1B2C3''))) ''123456'' = None \<and>
   toString_hex (randomBytes env_123456) = ''123456'' \<and>
   obj_get (answers (hd (questions (the (sessions (fst (the (step (Message 2 env_123456
      (STUDENT_JOIN_SESSION ''A1B2C3'' ''B'')) (after run_joined_A)))) ''A1B2C3''))))) ''123456''
     = Some \<lparr>username = ''B'', mcqAnswer = None, explanation = []\<rparr>"
proof -
  have "run run_created init = Some (after run_created)"
    "run run_joined_A init = Some (after run_joined_A)"
    by (simp_all add: run_defs handler_defs Let_def)
  then have r: "reachable (after run_created)" "reachable (after run_joined_A)"
    by (simp_all only: reachable_after)
  have h1: "sessions (after run_created) ''A1B2C3''
              = Some (the (sessions (after run_created) ''A1B2C3''))"
    by (simp add: run_defs handler_defs Let_def)
  have h2: "sessions (after run_joined_A) ''A1B2C3''
              = Some (the (sessions (after run_joined_A) ''A1B2C3''))"
    by (simp add: run_defs handler_defs Let_def)
  have e: "currentQuestionIndex (the (sessions (after run_created) ''A1B2C3'')) = - 1 \<and>
   questions (the (sessions (fst (the (step (Message 1 env_abcdef (STUDENT_JOIN_SESSION ''A1B2C3'' ''A''))
      (after run_created)))) ''A1B2C3'')) = [] \<and>
   currentQuestionIndex (the (sessions (after run_joined_A) ''A1B2C3'')) = 0 \<and>
   obj_get (students (the (sessions (after run_joined_A) ''A1B2C3''))) ''123456'' = None \<and>
   toString_hex (randomBytes env_123456) = ''123456'' \<and>
   obj_get (answers (hd (questions (the (sessions (fst (the (step (Message 2 env_123456
      (STUDENT_JOIN_SESSION ''A1B2C3'' ''B'')) (after run_joined_A)))) ''A1B2C3''))))) ''123456''
     = Some \<lparr>username = ''B'', mcqAnswer = None, explanation = []\<rparr>"
    using join_answer_records [OF r(1) h1, of env_abcdef 1 "''A''"]
      join_answer_records [OF r(2) h2, of env_123456 2 "''B''"]
    by (simp add: run_defs handler_defs Let_def)
  show ?thesis using r e by blast
qed



subsection \<open>Reattaching the coordinator\<close>

text \<open>
  C6. Reattaching to a session that was stopped and is still in the registry stores the
  caller's connection as the session's \<open>teacher\<close> and sends the caller one
  \<open>TEACHER_VIEW_UPDATE\<close> that carries the code, the stage \<open>STOPPED\<close>, the text, option count
  and answer records of the current question and the names of all participants. After
  close-and-delete the code is no longer in the registry, and reattaching sends \<open>ERROR\<close>:
  the codes of a reachable state are generated codes, which find nothing on
  \<open>Object.prototype\<close>. (Both events pass through \<open>sendJSON\<close>, which sends when the caller's
  connection is open.)
\<close>

theorem reattach_coordinator:
  assumes "sessions st sessionCode = Some s"
  shows "(\<exists>st1 out1.
            on_message ws0 e0 (TEACHER_STOP_QUIZ sessionCode) st = Some (st1, out1) \<and>
            sessions st1 sessionCode = Some (s\<lparr>stage := STOPPED\<rparr>) \<and>
            (\<exists>st2. on_message ws e (TEACHER_REJOIN_SESSION sessionCode) st1
                     = Some (st2,
                         if readyState st1 ws = OPEN
                         then [Send ws (TEACHER_VIEW_UPDATE sessionCode STOPPED
                                 (case current_question s of None \<Rightarrow> [] | Some q \<Rightarrow> questionText q)
                                 (case current_question s of None \<Rightarrow> 0 | Some q \<Rightarrow> mcqOptions q)
                                 (case current_question s of None \<Rightarrow> [] | Some q \<Rightarrow> obj_values (answers q))
                                 (map stu_username (obj_values (students s))))]
                         else []) \<and>
                   sessions st2 sessionCode = Some (s\<lparr>stage := STOPPED, teacher := Some ws\<rparr>))) \<and>
         (\<exists>st1 out1.
            on_message ws0 e0 (TEACHER_CLOSE_PAGE sessionCode) st = Some (st1, out1) \<and>
            sessions st1 sessionCode = None \<and>
            (reachable st \<longrightarrow>
               on_message ws e (TEACHER_REJOIN_SESSION sessionCode) st1
                 = Some (st1, if readyState st1 ws = OPEN then [Send ws (ERROR ''Session code not found'')] else [])))"
proof -
  from stop_own [OF assms] obtain st1 out1 where
    st1: "on_TEACHER_STOP_QUIZ sessionCode st = Some (st1, out1)"
      "sessions st1 = (sessions st)(sessionCode \<mapsto> s\<lparr>stage := STOPPED\<rparr>)"
    by blast
  have s1: "sessions st1 sessionCode = Some (s\<lparr>stage := STOPPED\<rparr>)"
    by (simp add: st1(2))
  let ?st2 = "st1\<lparr>sessions := (sessions st1)(sessionCode \<mapsto> s\<lparr>stage := STOPPED, teacher := Some ws\<rparr>)\<rparr>"
  have a: "on_TEACHER_REJOIN_SESSION ws sessionCode st1
             = Some (?st2,
                  if readyState st1 ws = OPEN
                  then [Send ws (TEACHER_VIEW_UPDATE sessionCode STOPPED
                          (case current_question s of None \<Rightarrow> [] | Some q \<Rightarrow> questionText q)
                          (case current_question s of None \<Rightarrow> 0 | Some q \<Rightarrow> mcqOptions q)
                          (case current_question s of None \<Rightarrow> [] | Some q \<Rightarrow> obj_values (answers q))
                          (map stu_username (obj_values (students s))))]
                  else [])"
    using s1
    by (simp add: on_TEACHER_REJOIN_SESSION_def Let_def broadcastTeacherView_def
        getCurrentQuestion_def sendJSON_def)
  have b: "sessions ?st2 sessionCode = Some (s\<lparr>stage := STOPPED, teacher := Some ws\<rparr>)"
    by simp
  have first: "\<exists>st1 out1.
            on_message ws0 e0 (TEACHER_STOP_QUIZ sessionCode) st = Some (st1, out1) \<and>
            sessions st1 sessionCode = Some (s\<lparr>stage := STOPPED\<rparr>) \<and>
            (\<exists>st2. on_message ws e (TEACHER_REJOIN_SESSION sessionCode) st1
                     = Some (st2,
                         if readyState st1 ws = OPEN
                         then [Send ws (TEACHER_VIEW_UPDATE sessionCode STOPPED
                                 (case current_question s of None \<Rightarrow> [] | Some q \<Rightarrow> questionText q)
                                 (case current_question s of None \<Rightarrow> 0 | Some q \<Rightarrow> mcqOptions q)
                                 (case current_question s of None \<Rightarrow> [] | Some q \<Rightarrow> obj_values (answers q))
                                 (map stu_username (obj_values (students s))))]
                         else []) \<and>
                   sessions st2 sessionCode = Some (s\<lparr>stage := STOPPED, teacher := Some ws\<rparr>))"
    using st1(1) s1 a b by (intro exI [of _ st1] exI [of _ out1] conjI exI [of _ ?st2]) simp_all
  from close_page_own [OF assms] obtain st3 out3 where
    st3: "on_TEACHER_CLOSE_PAGE sessionCode st = Some (st3, out3)"
      "sessions st3 = (sessions st)(sessionCode := None)"
      "prototype st3 = prototype st"
    by blast
  have c: "sessions st3 sessionCode = None" by (simp add: st3(2))
  have d: "on_TEACHER_REJOIN_SESSION ws sessionCode st3
             = Some (st3, if readyState st3 ws = OPEN then [Send ws (ERROR ''Session code not found'')] else [])"
    if r: "reachable st"
  proof -
    have ci: "codes_inv st" by (rule reachable_codes_inv [OF r])
    then have "length sessionCode = 6" using assms by (auto simp: codes_inv_def)
    then have u: "inherited_prop (prototype st3) sessionCode = Undefined"
      using code_not_inherited [OF ci] st3(3) by simp
    show ?thesis using c u by (simp add: on_TEACHER_REJOIN_SESSION_def sendJSON_def)
  qed
  have second: "\<exists>st1 out1.
            on_message ws0 e0 (TEACHER_CLOSE_PAGE sessionCode) st = Some (st1, out1) \<and>
            sessions st1 sessionCode = None \<and>
            (reachable st \<longrightarrow>
               on_message ws e (TEACHER_REJOIN_SESSION sessionCode) st1
                 = Some (st1, if readyState st1 ws = OPEN then [Send ws (ERROR ''Session code not found'')] else []))"
    using st3(1) c d by auto
  show ?thesis using first second by blast
qed

theorem reattach_coordinator_witness:
  "reachable (after run_joined) \<and>
   sessions (after run_joined) ''A1B2C3'' \<noteq> None \<and>
   snd (the (on_message 0 env_A1B2C3 (TEACHER_REJOIN_SESSION ''A1B2C3'')
          (fst (the (on_message 0 env_A1B2C3 (TEACHER_STOP_QUIZ ''A1B2C3'') (after run_joined))))))
     = [Send 0 (TEACHER_VIEW_UPDATE ''A1B2C3'' STOPPED ''Q'' 4
          [\<lparr>username = ''B'', mcqAnswer = None, explanation = []\<rparr>,
           \<lparr>username = ''A'', mcqAnswer = None, explanation = []\<rparr>] [''B'', ''A''])] \<and>
   snd (the (on_message 0 env_A1B2C3 (TEACHER_REJOIN_SESSION ''A1B2C3'')
          (fst (the (on_message 0 env_A1B2C3 (TEACHER_CLOSE_PAGE ''A1B2C3'') (after run_joined))))))
     = [Send 0 (ERROR ''Session code not found'')]"
proof -
  have "run run_joined init = Some (after run_joined)"
    by (simp add: run_defs handler_defs Let_def)
  then have r: "reachable (after run_joined)" by (rule reachable_after)
  have h: "sessions (after run_joined) ''A1B2C3''
             = Some (the (sessions (after run_joined) ''A1B2C3''))"
    by (simp add: run_defs handler_defs Let_def)
  have e: "sessions (after run_joined) ''A1B2C3'' \<noteq> None \<and>
   snd (the (on_message 0 env_A1B2C3 (TEACHER_REJOIN_SESSION ''A1B2C3'')
          (fst (the (on_message 0 env_A1B2C3 (TEACHER_STOP_QUIZ ''A1B2C3'') (after run_joined))))))
     = [Send 0 (TEACHER_VIEW_UPDATE ''A1B2C3'' STOPPED ''Q'' 4
          [\<lparr>username = ''B'', mcqAnswer = None, explanation = []\<rparr>,
           \<lparr>username = ''A'', mcqAnswer = None, explanation = []\<rparr>] [''B'', ''A''])] \<and>
   snd (the (on_message 0 env_A1B2C3 (TEACHER_REJOIN_SESSION ''A1B2C3'')
          (fst (the (on_message 0 env_A1B2C3 (TEACHER_CLOSE_PAGE ''A1B2C3'') (after run_joined))))))
     = [Send 0 (ERROR ''Session code not found'')]"
    using r reattach_coordinator [OF h, of 0 env_A1B2C3 0 env_A1B2C3]
    by (simp add: run_defs handler_defs Let_def)
  show ?thesis using r e by blast
qed


subsection \<open>Answer records and the participants present\<close>

lemma next_explanation_answers:
  "i < length (questions s) \<Longrightarrow> answers (questions (next_explanation s) ! i) = answers (questions s ! i)"
  by (auto simp: next_explanation_def Let_def questions_set_current nth_list_update
      dest: current_questionD split: option.splits)

lemma start_mcq_answers_old:
  assumes "i < length (questions s)"
  shows "answers (questions (start_mcq qText options s) ! i) = answers (questions s ! i)"
proof -
  obtain qs' x where q: "questions (start_mcq qText options s) = qs' @ [x]"
         "length qs' = length (questions s)"
         "\<forall>i < length qs'. qs' ! i = questions s ! i \<or> qs' ! i = (questions s ! i)\<lparr>q_stage := DONE\<rparr>"
    using start_mcq_shape [of qText options s] by blast
  have "answers (qs' ! i) = answers (questions s ! i)" using q(2,3) assms by auto
  then show ?thesis using q(1,2) assms by (simp add: nth_append)
qed

lemma start_mcq_answers_new:
  "set (obj_keys (answers (questions (start_mcq qText options s) ! length (questions s))))
     = set (obj_keys (students s))"
proof -
  obtain qs' where q: "questions (start_mcq qText options s)
           = qs' @ [add_answer_slots (students s)
                      \<lparr>questionNumber = length (questions s) + 1, questionText = str_or_empty qText,
                       mcqOptions = options, q_stage = MCQ, answers = []\<rparr>]"
         "length qs' = length (questions s)"
    using start_mcq_shape [of qText options s] by blast
  show ?thesis using q by (simp add: nth_append keys_add_answer_slots obj_keys_Nil)
qed

lemma join_session_answers:
  assumes "i < length (questions s)"
  shows "set (obj_keys (answers (questions (join_session ws sid name s) ! i)))
           \<subseteq> set (obj_keys (answers (questions s ! i)))
               \<union> (if current_question s \<noteq> None \<and> i = nat (currentQuestionIndex s) then {sid} else {})"
proof (cases "current_question s")
  case None
  then show ?thesis by (simp add: join_session_def Let_def)
next
  case (Some q)
  from current_questionD [OF Some] have q: "q = questions s ! nat (currentQuestionIndex s)" by simp
  show ?thesis using Some assms q
    by (auto simp: join_session_def Let_def questions_set_current nth_list_update keys_obj_set)
qed

lemma submit_mcq_shape:
  assumes "keys_inv s" "submit_mcq sid a s = Some s'"
  shows "\<exists>q slot. current_question s = Some q \<and> obj_get (answers q) sid = Some slot \<and>
           s' = set_current (q\<lparr>answers := obj_update sid (slot\<lparr>mcqAnswer := Some a\<rparr>) (answers q)\<rparr>) s"
proof -
  from assms(2) obtain q where q: "current_question s = Some q"
    unfolding submit_mcq_def by (auto split: option.splits)
  have k3: "set (obj_keys (students s)) \<subseteq> set (obj_keys (answers q))"
    using assms(1) q by (auto simp: keys_inv_def)
  have "obj_get (answers q) sid \<noteq> None"
  proof
    assume n: "obj_get (answers q) sid = None"
    then have "obj_get (students s) sid \<noteq> None"
      using assms(2) q unfolding submit_mcq_def by (auto split: option.splits)
    then have "sid \<in> set (obj_keys (students s))" by (simp add: obj_get_None_iff)
    then have "sid \<in> set (obj_keys (answers q))" using k3 by auto
    then show False using n by (simp add: obj_get_None_iff)
  qed
  then obtain slot where slot: "obj_get (answers q) sid = Some slot" by auto
  then have "sid \<in> set (obj_keys (answers q))"
    using obj_get_None_iff [of "answers q" sid] by auto
  then have "s' = set_current (q\<lparr>answers := obj_update sid (slot\<lparr>mcqAnswer := Some a\<rparr>) (answers q)\<rparr>) s"
    using assms(2) q slot unfolding submit_mcq_def by (simp add: obj_set_def)
  then show ?thesis using q slot by blast
qed

lemma submit_explanation_shape:
  assumes "keys_inv s" "submit_explanation sid a s = Some s'"
  shows "\<exists>q slot. current_question s = Some q \<and> obj_get (answers q) sid = Some slot \<and>
           s' = set_current (q\<lparr>answers := obj_update sid (slot\<lparr>explanation := a\<rparr>) (answers q)\<rparr>) s"
proof -
  from assms(2) obtain q where q: "current_question s = Some q"
    unfolding submit_explanation_def by (auto split: option.splits)
  have k3: "set (obj_keys (students s)) \<subseteq> set (obj_keys (answers q))"
    using assms(1) q by (auto simp: keys_inv_def)
  have "obj_get (answers q) sid \<noteq> None"
  proof
    assume n: "obj_get (answers q) sid = None"
    then have "obj_get (students s) sid \<noteq> None"
      using assms(2) q unfolding submit_explanation_def by (auto split: option.splits)
    then have "sid \<in> set (obj_keys (students s))" by (simp add: obj_get_None_iff)
    then have "sid \<in> set (obj_keys (answers q))" using k3 by auto
    then show False using n by (simp add: obj_get_None_iff)
  qed
  then obtain slot where slot: "obj_get (answers q) sid = Some slot" by auto
  then have "sid \<in> set (obj_keys (answers q))"
    using obj_get_None_iff [of "answers q" sid] by auto
  then have "s' = set_current (q\<lparr>answers := obj_update sid (slot\<lparr>explanation := a\<rparr>) (answers q)\<rparr>) s"
    using assms(2) q slot unfolding submit_explanation_def by (simp add: obj_set_def)
  then show ?thesis using q slot by blast
qed

lemma set_current_update_keys:
  assumes "current_question s = Some q" "i < length (questions s)"
  shows "obj_keys (answers (questions (set_current (q\<lparr>answers := obj_update sid v (answers q)\<rparr>) s) ! i))
           = obj_keys (answers (questions s ! i))"
  using current_questionD [OF assms(1)] assms(2)
  by (auto simp: questions_set_current nth_list_update keys_obj_update)

lemma submit_mcq_keys:
  assumes "keys_inv s" "submit_mcq sid a s = Some s'" "i < length (questions s)"
  shows "obj_keys (answers (questions s' ! i)) = obj_keys (answers (questions s ! i))"
  using submit_mcq_shape [OF assms(1,2)] set_current_update_keys [OF _ assms(3)] by blast

lemma submit_explanation_keys:
  assumes "keys_inv s" "submit_explanation sid a s = Some s'" "i < length (questions s)"
  shows "obj_keys (answers (questions s' ! i)) = obj_keys (answers (questions s ! i))"
  using submit_explanation_shape [OF assms(1,2)] set_current_update_keys [OF _ assms(3)] by blast


subsection \<open>The export of a session\<close>





























text \<open>
  The rows that a submit under the id \<open>__proto__\<close> adds: it assigns \<open>mcqAnswer\<close> on
  \<open>Object.prototype\<close>, and from then on \<open>for ... in\<close> enumerates \<open>mcqAnswer\<close> after the
  records of every question.
\<close>

lemma export_after_prototype_assignment:
  \<open>run run_proto init = Some (after run_proto) \<and>
   prototype (after run_proto) = [(''mcqAnswer'', PNum 3)] \<and>
   sessions (after run_proto) ''A1B2C3'' = sessions (after run_joined) ''A1B2C3'' \<and>
   generateCSV (prototype (after run_proto)) (the (sessions (after run_proto) ''A1B2C3''))
     = ''"Question #","Question Text","Username","MCQ Answer","Explanation"'' @ [CHR 0x0A] @
       ''"1","Q","B","",""'' @ [CHR 0x0A] @ ''"1","Q","A","",""'' @ [CHR 0x0A] @
       ''"1","Q","","3",""''\<close>
  by (simp add: run_defs run_defs2 handler_defs csv_defs Let_def)




subsection \<open>The participants present for a question\<close>

lemma presence_inv_update:
  assumes "presence_inv st g" "sessions st' = (sessions st)(c' \<mapsto> s')"
    "\<forall>c i. c \<noteq> c' \<longrightarrow> g' c i = g c i" "\<forall>i. finite (g' c' i)"
    "\<forall>i < length (questions s'). set (obj_keys (answers (questions s' ! i))) \<subseteq> g' c' i"
  shows "presence_inv st' g'"
proof -
  have f: "finite (g' c i)" for c i
    using assms(1,3,4) by (cases "c = c'") (auto simp: presence_inv_def)
  have k: "set (obj_keys (answers (questions s ! i))) \<subseteq> g' c i"
    if "sessions st' c = Some s" "i < length (questions s)" for c s i
  proof (cases "c = c'")
    case True
    then show ?thesis using that assms(2,5) by simp
  next
    case False
    then have "sessions st c = Some s" using that(1) assms(2) by simp
    then show ?thesis using assms(1,3) False that(2) by (auto simp: presence_inv_def)
  qed
  show ?thesis unfolding presence_inv_def using f k by blast
qed

lemma presence_inv_same:
  "presence_inv st g \<Longrightarrow> sessions st' = sessions st \<Longrightarrow> presence_inv st' g"
  by (simp add: presence_inv_def)

lemma presence_inv_delete:
  "presence_inv st g \<Longrightarrow> sessions st' = (sessions st)(c := None) \<Longrightarrow> presence_inv st' g"
  by (auto simp: presence_inv_def split: if_splits)

lemma note_present_other: "c \<noteq> c' \<Longrightarrow> note_present c' i ids g c j = g c j"
  by (simp add: note_present_def)

lemma note_present_same:
  "note_present c i ids g c j = (if j = i then g c i \<union> ids else g c j)"
  by (simp add: note_present_def)

lemma presence_inv_noted:
  assumes "presence_inv st g" "sessions st' = sessions st" "finite ids"
  shows "presence_inv st' (note_present c i ids g)"
  unfolding presence_inv_def
proof (intro conjI allI impI)
  fix c' j show "finite (note_present c i ids g c' j)"
    using assms(1,3) by (auto simp: note_present_def presence_inv_def)
next
  fix c' s j assume "sessions st' c' = Some s" "j < length (questions s)"
  then have "set (obj_keys (answers (questions s ! j))) \<subseteq> g c' j"
    using assms(1,2) by (simp add: presence_inv_def)
  then show "set (obj_keys (answers (questions s ! j))) \<subseteq> note_present c i ids g c' j"
    by (auto simp: note_present_def)
qed

lemma presence_inv_finite: "presence_inv st g \<Longrightarrow> finite (g c i)"
  by (simp add: presence_inv_def)

lemma presence_inv_keys:
  "presence_inv st g \<Longrightarrow> sessions st c = Some s \<Longrightarrow> i < length (questions s) \<Longrightarrow>
     set (obj_keys (answers (questions s ! i))) \<subseteq> g c i"
  by (simp add: presence_inv_def)

lemma presence_inv_keys_same:
  assumes "presence_inv st g" "sessions st c = Some s" "sessions st' = (sessions st)(c \<mapsto> s')"
    "length (questions s') = length (questions s)"
    "\<forall>i < length (questions s). obj_keys (answers (questions s' ! i)) = obj_keys (answers (questions s ! i))"
  shows "presence_inv st' g"
  by (rule presence_inv_update [OF assms(1,3)])
     (use assms(4,5) presence_inv_finite [OF assms(1)] presence_inv_keys [OF assms(1,2)] in simp_all)

lemma presence_start:
  assumes "presence_inv st g" "on_TEACHER_START_MCQ c qText options st = Some (st', out)"
  shows "presence_inv st' (involved_msg e (TEACHER_START_MCQ c qText options) st g)"
proof (cases "sessions st c")
  case None
  then show ?thesis using assms by (auto simp: on_TEACHER_START_MCQ_def split: if_splits)
next
  case (Some s)
  let ?g' = "note_present c (length (questions s)) (set (obj_keys (students s))) g"
  have st': "sessions st' = (sessions st)(c \<mapsto> start_mcq qText options s)"
    using assms(2) Some by (auto simp: on_TEACHER_START_MCQ_def Let_def)
  have k: "set (obj_keys (answers (questions (start_mcq qText options s) ! i))) \<subseteq> ?g' c i"
    if "i < length (questions (start_mcq qText options s))" for i
  proof (cases "i < length (questions s)")
    case True
    then show ?thesis
      using presence_inv_keys [OF assms(1) Some True]
      by (auto simp: start_mcq_answers_old note_present_same)
  next
    case False
    then have "i = length (questions s)" using that by (simp add: length_start_mcq)
    then show ?thesis by (simp add: start_mcq_answers_new note_present_same)
  qed
  have "presence_inv st' ?g'"
    by (rule presence_inv_update [OF assms(1) st'])
       (use k presence_inv_finite [OF assms(1)] in
         \<open>simp_all add: note_present_other note_present_same\<close>)
  then show ?thesis using Some by simp
qed

lemma presence_join:
  assumes "presence_inv st g" "on_STUDENT_JOIN_SESSION ws e c name st = Some (st', out)"
  shows "presence_inv st' (involved_msg e (STUDENT_JOIN_SESSION c name) st g)"
proof (cases "sessions st c")
  case None
  then show ?thesis using assms by (auto simp: on_STUDENT_JOIN_SESSION_def split: if_splits)
next
  case (Some s)
  let ?sid = "toString_hex (randomBytes e)"
  let ?g' = "involved_msg e (STUDENT_JOIN_SESSION c name) st g"
  have st': "sessions st' = (sessions st)(c \<mapsto> join_session ws ?sid name s)"
    using assms(2) Some by (auto simp: on_STUDENT_JOIN_SESSION_def Let_def)
  have g': "?g' = (case current_question s of None \<Rightarrow> g
                   | Some q \<Rightarrow> note_present c (nat (currentQuestionIndex s)) {?sid} g)"
    using Some by simp
  have k: "set (obj_keys (answers (questions (join_session ws ?sid name s) ! i))) \<subseteq> ?g' c i"
    if "i < length (questions s)" for i
    using join_session_answers [OF that, of ws ?sid name] presence_inv_keys [OF assms(1) Some that]
    unfolding g' by (auto simp: note_present_same split: option.splits if_splits)
  have o: "\<forall>c' i. c' \<noteq> c \<longrightarrow> ?g' c' i = g c' i"
    unfolding g' by (simp add: note_present_other split: option.splits)
  have f: "\<forall>i. finite (?g' c i)"
    unfolding g' using presence_inv_finite [OF assms(1)]
    by (simp add: note_present_same split: option.splits)
  show ?thesis
    by (rule presence_inv_update [OF assms(1) st' o f]) (use k in simp)
qed

lemma presence_submit:
  assumes "presence_inv st g" "server_inv st" "on_STUDENT_SUBMIT_MCQ c sid a st = Some (st', out)"
  shows "presence_inv st' (involved_msg e (STUDENT_SUBMIT_MCQ c sid a) st g)"
proof (cases "sessions st c")
  case None
  then show ?thesis using assms(1,3) by (auto simp: on_STUDENT_SUBMIT_MCQ_def split: if_splits)
next
  case (Some s)
  note ses = Some
  have ki: "keys_inv s" using assms(2) Some by (auto simp: server_inv_def session_inv_def)
  show ?thesis
  proof (cases "submit_mcq sid a s")
    case None
    then have "sessions st' = sessions st"
      using assms(3) ses
      by (auto simp: on_STUDENT_SUBMIT_MCQ_def Let_def split: option.splits if_splits)
    then show ?thesis using assms(1) ses None by (simp add: presence_inv_same)
  next
    case (Some s')
    let ?g' = "note_present c (nat (currentQuestionIndex s)) {sid} g"
    consider (same) "sessions st' = sessions st" | (upd) "sessions st' = (sessions st)(c \<mapsto> s')"
      using assms(3) ses Some
      by (auto simp: on_STUDENT_SUBMIT_MCQ_def Let_def split: option.splits if_splits)
    then have "presence_inv st' ?g'"
    proof cases
      case same
      then show ?thesis using assms(1) by (simp add: presence_inv_noted)
    next
      case upd
      have len: "length (questions s') = length (questions s)"
        using submit_mcq_index [OF Some] by simp
      have k: "set (obj_keys (answers (questions s' ! i))) \<subseteq> ?g' c i" if "i < length (questions s')" for i
        using that len submit_mcq_keys [OF ki Some, of i] presence_inv_keys [OF assms(1) ses, of i]
        by (auto simp: note_present_same)
      show ?thesis
        by (rule presence_inv_update [OF assms(1) upd])
           (use k presence_inv_finite [OF assms(1)] in
             \<open>simp_all add: note_present_other note_present_same\<close>)
    qed
    then show ?thesis using Some ses by simp
  qed
qed

lemma presence_explanation:
  assumes "presence_inv st g" "server_inv st" "on_STUDENT_EXPLANATION_UPDATE c sid a st = Some (st', out)"
  shows "presence_inv st' g"
proof (cases "sessions st c")
  case None
  then show ?thesis using assms(1,3)
    by (auto simp: on_STUDENT_EXPLANATION_UPDATE_def split: if_splits)
next
  case (Some s)
  have ki: "keys_inv s" using assms(2) Some by (auto simp: server_inv_def session_inv_def)
  consider (same) "sessions st' = sessions st"
    | (upd) s' where "submit_explanation sid a s = Some s'" "sessions st' = (sessions st)(c \<mapsto> s')"
    using assms(3) Some
    by (auto simp: on_STUDENT_EXPLANATION_UPDATE_def Let_def split: option.splits if_splits)
  then show ?thesis
  proof cases
    case same
    then show ?thesis using assms(1) by (simp add: presence_inv_same)
  next
    case upd
    show ?thesis
      by (rule presence_inv_keys_same [OF assms(1) Some upd(2)])
         (use submit_explanation_index [OF upd(1)] submit_explanation_keys [OF ki upd(1)] in simp_all)
  qed
qed

lemma presence_message:
  assumes "presence_inv st g" "server_inv st" "on_message ws e m st = Some (st', out)"
  shows "presence_inv st' (involved_msg e m st g)"
proof (cases m)
  case TEACHER_CREATE_SESSION
  have "presence_inv st' (g(generateSessionCode (randomBytes e) := (\<lambda>i. {})))"
    by (rule presence_inv_update [OF assms(1), where s' = "new_session ws"
          and c' = "generateSessionCode (randomBytes e)"])
       (use assms(3) TEACHER_CREATE_SESSION in
         \<open>auto simp: on_TEACHER_CREATE_SESSION_def Let_def new_session_def\<close>)
  then show ?thesis using TEACHER_CREATE_SESSION by simp
next
  case (TEACHER_START_MCQ c qText options)
  then show ?thesis using presence_start [OF assms(1)] assms(3) by simp
next
  case (TEACHER_NEXT_EXPLANATION c)
  show ?thesis
  proof (cases "sessions st c")
    case None
    then show ?thesis using assms(1,3) TEACHER_NEXT_EXPLANATION
      by (auto simp: on_TEACHER_NEXT_EXPLANATION_def split: if_splits)
  next
    case (Some s)
    have "sessions st' = (sessions st)(c \<mapsto> next_explanation s)"
      using assms(3) TEACHER_NEXT_EXPLANATION Some
      by (auto simp: on_TEACHER_NEXT_EXPLANATION_def Let_def)
    then have "presence_inv st' g"
      by (rule presence_inv_keys_same [OF assms(1) Some]) (simp_all add: next_explanation_answers)
    then show ?thesis using TEACHER_NEXT_EXPLANATION by simp
  qed
next
  case (TEACHER_STOP_QUIZ c)
  show ?thesis
  proof (cases "sessions st c")
    case None
    then show ?thesis using assms(1,3) TEACHER_STOP_QUIZ
      by (auto simp: on_TEACHER_STOP_QUIZ_def split: if_splits)
  next
    case (Some s)
    have "sessions st' = (sessions st)(c \<mapsto> s\<lparr>stage := STOPPED\<rparr>)"
      using assms(3) TEACHER_STOP_QUIZ stop_own [OF Some] by auto
    then have "presence_inv st' g"
      by (rule presence_inv_keys_same [OF assms(1) Some]) simp_all
    then show ?thesis using TEACHER_STOP_QUIZ by simp
  qed
next
  case (TEACHER_CLOSE_PAGE c)
  show ?thesis
  proof (cases "sessions st c")
    case None
    then show ?thesis using assms(1,3) TEACHER_CLOSE_PAGE
      by (auto simp: on_TEACHER_CLOSE_PAGE_def split: if_splits)
  next
    case (Some s)
    have "sessions st' = (sessions st)(c := None)"
      using assms(3) TEACHER_CLOSE_PAGE close_page_own [OF Some] by auto
    then have "presence_inv st' g" by (rule presence_inv_delete [OF assms(1)])
    then show ?thesis using TEACHER_CLOSE_PAGE by simp
  qed
next
  case (TEACHER_DOWNLOAD_CSV c)
  then show ?thesis using assms(1,3)
    by (auto simp: on_TEACHER_DOWNLOAD_CSV_def Let_def split: option.splits if_splits)
next
  case (TEACHER_REJOIN_SESSION c)
  show ?thesis
  proof (cases "sessions st c")
    case None
    then show ?thesis using assms(1,3) TEACHER_REJOIN_SESSION
      by (auto simp: on_TEACHER_REJOIN_SESSION_def split: if_splits inherited.splits)
  next
    case (Some s)
    have "sessions st' = (sessions st)(c \<mapsto> s\<lparr>teacher := Some ws\<rparr>)"
      using assms(3) TEACHER_REJOIN_SESSION Some
      by (auto simp: on_TEACHER_REJOIN_SESSION_def Let_def)
    then have "presence_inv st' g"
      by (rule presence_inv_keys_same [OF assms(1) Some]) simp_all
    then show ?thesis using TEACHER_REJOIN_SESSION by simp
  qed
next
  case (STUDENT_JOIN_SESSION c name)
  then show ?thesis using presence_join [OF assms(1)] assms(3) by simp
next
  case (STUDENT_SUBMIT_MCQ c sid a)
  then show ?thesis using presence_submit [OF assms(1,2)] assms(3) by simp
next
  case (STUDENT_EXPLANATION_UPDATE c sid a)
  then show ?thesis using presence_explanation [OF assms(1,2)] assms(3) by simp
next
  case UNKNOWN_TYPE
  then show ?thesis using assms(1,3) by auto
next
  case INVALID_JSON
  then show ?thesis using assms(1,3) by auto
qed

lemma presence_step:
  assumes "presence_inv st g" "server_inv st" "step i st = Some (st', out)"
  shows "presence_inv st' (involved i st g)"
proof (cases i)
  case (Message ws e m)
  then show ?thesis using presence_message [OF assms(1,2)] assms(3) by simp
next
  case Tick
  then have "st' = fst (on_tick st)" using assms(3) by auto
  then show ?thesis using assms(1) Tick by (simp add: presence_inv_same sessions_on_tick)
qed (use assms(1,3) in \<open>auto intro!: presence_inv_same [of st g]\<close>)

lemma presence_run:
  assumes "presence_inv (fst sg) (snd sg)" "server_inv (fst sg)" "run_noting is sg = Some (st, g)"
  shows "presence_inv st g \<and> server_inv st \<and> run is (fst sg) = Some st"
  using assms
proof (induction "is" arbitrary: sg)
  case Nil
  then show ?case by (cases sg) simp
next
  case (Cons i "is")
  from Cons.prems(3) obtain st1 out where
    s: "step i (fst sg) = Some (st1, out)" and
    r: "run_noting is (st1, involved i (fst sg) (snd sg)) = Some (st, g)"
    by (auto split: option.splits)
  have c: "presence_inv st1 (involved i (fst sg) (snd sg))"
    by (rule presence_step [OF Cons.prems(1,2) s])
  have v: "server_inv st1" by (rule server_inv_step [OF Cons.prems(2) s])
  from Cons.IH [of "(st1, involved i (fst sg) (snd sg))"] c v r s show ?case by simp
qed

lemma presence_init: "presence_inv init (\<lambda>c i. {})"
  by (simp add: presence_inv_def init_def)

lemma submit_mcq_present:
  "current_question s = Some q \<Longrightarrow> obj_get (answers q) sid = Some slot \<Longrightarrow>
     submit_mcq sid a s
       = Some (set_current (q\<lparr>answers := obj_set sid (slot\<lparr>mcqAnswer := Some a\<rparr>) (answers q)\<rparr>) s)"
  by (simp add: submit_mcq_def)

text \<open>
  C8. Run the server from its initial state over any inputs, noting for each question who
  was present at its creation, joined while it was current or had a \<open>STUDENT_SUBMIT_MCQ\<close>
  accepted for it. Then in every question of every session the keys of the answer records
  are distinct ids of such participants, so the number of records (the length of the list
  \<open>Object.values(currentQ.answers)\<close> sent in the coordinator's view) is at most the number of
  these participants. A \<open>STUDENT_SUBMIT_MCQ\<close> leaves the keys of every question as they are:
  it creates no entry, and where the participant has a record in the current question it
  overwrites \<open>mcqAnswer\<close> in that one record and leaves the records of the others alone.
\<close>

theorem answer_records_bounded:
  assumes "run_noting is (init, \<lambda>c i. {}) = Some (st, g)" "sessions st sessionCode = Some s"
  shows "(\<forall>i < length (questions s).
            distinct (obj_keys (answers (questions s ! i))) \<and>
            finite (g sessionCode i) \<and>
            set (obj_keys (answers (questions s ! i))) \<subseteq> g sessionCode i \<and>
            length (obj_values (answers (questions s ! i))) \<le> card (g sessionCode i)) \<and>
         (\<exists>st' out s'.
               step (Message ws e (STUDENT_SUBMIT_MCQ sessionCode studentId ans)) st = Some (st', out) \<and>
               sessions st' sessionCode = Some s' \<and>
               length (questions s') = length (questions s) \<and>
               (\<forall>j < length (questions s).
                   obj_keys (answers (questions s' ! j)) = obj_keys (answers (questions s ! j))) \<and>
               (\<forall>q slot. current_question s = Some q \<and> obj_get (answers q) studentId = Some slot \<longrightarrow>
                   (\<exists>q'. current_question s' = Some q' \<and>
                         obj_get (answers q') studentId = Some (slot\<lparr>mcqAnswer := Some ans\<rparr>) \<and>
                         (\<forall>k. k \<noteq> studentId \<longrightarrow> obj_get (answers q') k = obj_get (answers q) k))))"
proof -
  from presence_run [of "(init, \<lambda>c i. {})" "is" st g] assms(1)
  have pi: "presence_inv st g" and si: "server_inv st"
    by (simp_all add: presence_init server_inv_init)
  have ki: "keys_inv s" using si assms(2) by (auto simp: server_inv_def session_inv_def)
  have bound: "distinct (obj_keys (answers (questions s ! i))) \<and>
            finite (g sessionCode i) \<and>
            set (obj_keys (answers (questions s ! i))) \<subseteq> g sessionCode i \<and>
            length (obj_values (answers (questions s ! i))) \<le> card (g sessionCode i)"
    if i: "i < length (questions s)" for i
  proof -
    have d: "distinct (obj_keys (answers (questions s ! i)))"
      using ki nth_mem [OF i] by (auto simp: keys_inv_def)
    have f: "finite (g sessionCode i)" by (rule presence_inv_finite [OF pi])
    have sub: "set (obj_keys (answers (questions s ! i))) \<subseteq> g sessionCode i"
      by (rule presence_inv_keys [OF pi assms(2) i])
    have "length (obj_values (answers (questions s ! i))) = card (set (obj_keys (answers (questions s ! i))))"
      using distinct_card [OF d] by (simp add: obj_values_def obj_keys_def)
    also have "\<dots> \<le> card (g sessionCode i)" by (rule card_mono [OF f sub])
    finally show ?thesis using d f sub by simp
  qed
  let ?step = "step (Message ws e (STUDENT_SUBMIT_MCQ sessionCode studentId ans)) st"
  let ?P = "\<lambda>s'. length (questions s') = length (questions s) \<and>
               (\<forall>j < length (questions s).
                   obj_keys (answers (questions s' ! j)) = obj_keys (answers (questions s ! j))) \<and>
               (\<forall>q slot. current_question s = Some q \<and> obj_get (answers q) studentId = Some slot \<longrightarrow>
                   (\<exists>q'. current_question s' = Some q' \<and>
                         obj_get (answers q') studentId = Some (slot\<lparr>mcqAnswer := Some ans\<rparr>) \<and>
                         (\<forall>k. k \<noteq> studentId \<longrightarrow> obj_get (answers q') k = obj_get (answers q) k)))"
  have vac: "?P s" if "\<And>q slot. \<not> (current_question s = Some q \<and> obj_get (answers q) studentId = Some slot)"
    using that by blast
  have same: "\<exists>st' out s'. ?step = Some (st', out) \<and> sessions st' sessionCode = Some s' \<and> ?P s'"
    if r: "?step = Some (st', out)" "sessions st' = sessions st"
      and v: "\<And>q slot. \<not> (current_question s = Some q \<and> obj_get (answers q) studentId = Some slot)"
    for st' out
    using r assms(2) vac [OF v] by (intro exI [of _ st'] exI [of _ out] exI [of _ s]) simp
  have submit: "\<exists>st' out s'. ?step = Some (st', out) \<and> sessions st' sessionCode = Some s' \<and> ?P s'"
  proof (cases "current_question s")
    case None
    have "?step = Some (st, [])"
      using assms(2) None by (simp add: on_STUDENT_SUBMIT_MCQ_def)
    then show ?thesis using None by (intro same [of st "[]"]) simp_all
  next
    case (Some q0)
    note q0 = Some
    show ?thesis
    proof (cases "obj_get (answers q0) studentId = None \<and> truthy (inherited_prop (prototype st) studentId)")
      case True
      let ?st' = "st\<lparr>prototype := assign_inherited (inherited_prop (prototype st) studentId)
                      ''mcqAnswer'' (PNum ans) (prototype st)\<rparr>"
      have "?step = Some (?st', broadcastTeacherView ?st' sessionCode)"
        using assms(2) q0 True by (simp add: on_STUDENT_SUBMIT_MCQ_def Let_def)
      then show ?thesis using q0 True
        by (intro same [of ?st' "broadcastTeacherView ?st' sessionCode"]) auto
    next
      case False
      show ?thesis
      proof (cases "submit_mcq studentId ans s")
        case None
        have "?step = Some (st, [])"
          using assms(2) q0 False None by (auto simp: on_STUDENT_SUBMIT_MCQ_def Let_def)
        moreover have "\<not> (current_question s = Some q \<and> obj_get (answers q) studentId = Some slot)"
          for q slot
          using None submit_mcq_present [of s q studentId slot ans] by auto
        ultimately show ?thesis by (intro same [of st "[]"]) simp_all
      next
        case (Some s')
        let ?st' = "st\<lparr>sessions := (sessions st)(sessionCode \<mapsto> s')\<rparr>"
        have a: "?step = Some (?st', broadcastTeacherView ?st' sessionCode)"
          "sessions ?st' sessionCode = Some s'"
          using assms(2) q0 False Some by (auto simp: on_STUDENT_SUBMIT_MCQ_def Let_def)
        have b: "length (questions s') = length (questions s)"
          using submit_mcq_index [OF Some] by simp
        have c: "\<forall>j < length (questions s).
                   obj_keys (answers (questions s' ! j)) = obj_keys (answers (questions s ! j))"
          using submit_mcq_keys [OF ki Some] by simp
        have d: "\<exists>q'. current_question s' = Some q' \<and>
                      obj_get (answers q') studentId = Some (slot\<lparr>mcqAnswer := Some ans\<rparr>) \<and>
                      (\<forall>k. k \<noteq> studentId \<longrightarrow> obj_get (answers q') k = obj_get (answers q) k)"
          if "current_question s = Some q" "obj_get (answers q) studentId = Some slot" for q slot
        proof -
          let ?q' = "q\<lparr>answers := obj_set studentId (slot\<lparr>mcqAnswer := Some ans\<rparr>) (answers q)\<rparr>"
          have "s' = set_current ?q' s"
            using submit_mcq_present [OF that, of ans] Some by simp
          then have "current_question s' = Some ?q'"
            using current_question_set_current [OF that(1), of ?q'] by simp
          then show ?thesis by (intro exI [of _ ?q']) (simp add: get_obj_set)
        qed
        have "?P s'" using b c d by blast
        then show ?thesis using a by blast
      qed
    qed
  qed
  show ?thesis using bound submit by blast
qed

theorem answer_records_bounded_witness:
  "run_noting run_joined (init, \<lambda>c i. {})
     = Some (after run_joined, snd (the (run_noting run_joined (init, \<lambda>c i. {})))) \<and>
   length (obj_values (answers (hd (questions (the (sessions (after run_joined) ''A1B2C3'')))))) = 2 \<and>
   snd (the (run_noting run_joined (init, \<lambda>c i. {}))) ''A1B2C3'' 0 = {''abcdef'', ''123456''} \<and>
   map (\<lambda>kv. (fst kv, mcqAnswer (snd kv)))
     (answers (hd (questions (the (sessions (fst (the (step (Message 1 env_abcdef
        (STUDENT_SUBMIT_MCQ ''A1B2C3'' ''abcdef'' 3))
        (fst (the (step (Message 1 env_abcdef (STUDENT_SUBMIT_MCQ ''A1B2C3'' ''abcdef'' 2))
           (after run_joined)))))))
        ''A1B2C3'')))))
     = [(''123456'', None), (''abcdef'', Some 3)]"
proof -
  have h: "run_noting run_joined (init, \<lambda>c i. {})
             = Some (after run_joined, snd (the (run_noting run_joined (init, \<lambda>c i. {}))))"
    by (simp add: run_defs handler_defs Let_def)
  have s: "sessions (after run_joined) ''A1B2C3''
             = Some (the (sessions (after run_joined) ''A1B2C3''))"
    by (simp add: run_defs handler_defs Let_def)
  have g: "snd (the (run_noting run_joined (init, \<lambda>c i. {}))) ''A1B2C3'' 0 = {''abcdef'', ''123456''}"
    by (simp add: run_defs handler_defs note_present_def Let_def insert_commute)
  have e: "length (obj_values (answers (hd (questions (the (sessions (after run_joined) ''A1B2C3'')))))) = 2 \<and>
   map (\<lambda>kv. (fst kv, mcqAnswer (snd kv)))
     (answers (hd (questions (the (sessions (fst (the (step (Message 1 env_abcdef
        (STUDENT_SUBMIT_MCQ ''A1B2C3'' ''abcdef'' 3))
        (fst (the (step (Message 1 env_abcdef (STUDENT_SUBMIT_MCQ ''A1B2C3'' ''abcdef'' 2))
           (after run_joined)))))))
        ''A1B2C3'')))))
     = [(''123456'', None), (''abcdef'', Some 3)]"
    using answer_records_bounded [OF h s, of 1 env_abcdef "''abcdef''" 2]
    by (simp add: run_defs handler_defs Let_def)
  show ?thesis using h g e by blast
qed


subsection \<open>The keep-alive timer\<close>

lemma on_message_frame:
  assumes "on_message ws e m st = Some (st', out)"
  shows "clients st' = clients st \<and> isAlive st' = isAlive st \<and>
         totalUptime st' = totalUptime st \<and> keepAliveInterval st' = keepAliveInterval st"
proof (cases m)
  case (TEACHER_STOP_QUIZ c)
  show ?thesis
  proof (cases "sessions st c")
    case None
    then show ?thesis using assms TEACHER_STOP_QUIZ
      by (auto simp: on_TEACHER_STOP_QUIZ_def split: if_splits)
  next
    case (Some s)
    then show ?thesis using assms TEACHER_STOP_QUIZ stop_own [OF Some] by auto
  qed
next
  case (TEACHER_CLOSE_PAGE c)
  show ?thesis
  proof (cases "sessions st c")
    case None
    then show ?thesis using assms TEACHER_CLOSE_PAGE
      by (auto simp: on_TEACHER_CLOSE_PAGE_def split: if_splits)
  next
    case (Some s)
    then show ?thesis using assms TEACHER_CLOSE_PAGE close_page_own [OF Some] by auto
  qed
qed (use assms in \<open>auto simp: on_TEACHER_CREATE_SESSION_def on_TEACHER_START_MCQ_def
      on_TEACHER_NEXT_EXPLANATION_def on_TEACHER_DOWNLOAD_CSV_def on_TEACHER_REJOIN_SESSION_def
      on_STUDENT_JOIN_SESSION_def on_STUDENT_SUBMIT_MCQ_def on_STUDENT_EXPLANATION_UPDATE_def Let_def
      split: option.splits if_splits inherited.splits\<close>)

lemma sendJSON_no_probe: "eff \<in> set (sendJSON st ws ev) \<Longrightarrow> \<not> is_probe eff"
  by (auto simp: sendJSON_def split: if_splits)

lemma broadcastToSession_no_probe: "eff \<in> set (broadcastToSession st c ev) \<Longrightarrow> \<not> is_probe eff"
  by (auto simp: broadcastToSession_def dest: sendJSON_no_probe split: option.splits)

lemma broadcastTeacherView_no_probe: "eff \<in> set (broadcastTeacherView st c) \<Longrightarrow> \<not> is_probe eff"
  by (auto simp: broadcastTeacherView_def Let_def dest: sendJSON_no_probe split: option.splits)

lemma close_students_no_probe: "eff \<in> set (snd (close_students s st)) \<Longrightarrow> \<not> is_probe eff"
  by (auto simp: close_students_def)

lemma on_message_no_probe:
  assumes "on_message ws e m st = Some (st', out)" "eff \<in> set out" shows "\<not> is_probe eff"
proof (cases m)
  case TEACHER_CREATE_SESSION
  then show ?thesis using assms
    by (auto simp: on_TEACHER_CREATE_SESSION_def Let_def dest: sendJSON_no_probe)
next
  case (TEACHER_START_MCQ c qText options)
  then show ?thesis using assms
    by (auto simp: on_TEACHER_START_MCQ_def Let_def split: option.splits if_splits
        dest: broadcastToSession_no_probe broadcastTeacherView_no_probe)
next
  case (TEACHER_NEXT_EXPLANATION c)
  then show ?thesis using assms
    by (auto simp: on_TEACHER_NEXT_EXPLANATION_def Let_def split: option.splits if_splits
        dest: broadcastToSession_no_probe broadcastTeacherView_no_probe)
next
  case (TEACHER_STOP_QUIZ c)
  then show ?thesis using assms
    by (auto simp: on_TEACHER_STOP_QUIZ_def Let_def split_beta split: option.splits if_splits
        dest: broadcastToSession_no_probe broadcastTeacherView_no_probe close_students_no_probe)
next
  case (TEACHER_CLOSE_PAGE c)
  then show ?thesis using assms
    by (auto simp: on_TEACHER_CLOSE_PAGE_def Let_def split_beta split: option.splits if_splits
        dest: broadcastToSession_no_probe close_students_no_probe)
next
  case (TEACHER_DOWNLOAD_CSV c)
  then show ?thesis using assms
    by (auto simp: on_TEACHER_DOWNLOAD_CSV_def Let_def split: option.splits if_splits
        dest: sendJSON_no_probe)
next
  case (TEACHER_REJOIN_SESSION c)
  then show ?thesis using assms
    by (auto simp: on_TEACHER_REJOIN_SESSION_def Let_def split: option.splits if_splits inherited.splits
        dest: sendJSON_no_probe broadcastTeacherView_no_probe)
next
  case (STUDENT_JOIN_SESSION c name)
  then show ?thesis using assms
    by (auto simp: on_STUDENT_JOIN_SESSION_def Let_def split: option.splits if_splits
        dest: sendJSON_no_probe broadcastTeacherView_no_probe)
next
  case (STUDENT_SUBMIT_MCQ c sid a)
  then show ?thesis using assms
    by (auto simp: on_STUDENT_SUBMIT_MCQ_def Let_def split: option.splits if_splits
        dest: broadcastTeacherView_no_probe)
next
  case (STUDENT_EXPLANATION_UPDATE c sid a)
  then show ?thesis using assms
    by (auto simp: on_STUDENT_EXPLANATION_UPDATE_def Let_def split: option.splits if_splits
        dest: broadcastTeacherView_no_probe)
next
  case UNKNOWN_TYPE
  then show ?thesis using assms by simp
next
  case INVALID_JSON
  then show ?thesis using assms by simp
qed

lemma quiet_frame:
  assumes "quiet ws i" "step i st = Some (st', out)"
  shows "isAlive st' ws = isAlive st ws \<and>
         (ws \<in> set (clients st') \<longleftrightarrow> ws \<in> set (clients st)) \<and>
         totalUptime st' = totalUptime st \<and>
         keepAliveInterval st' = keepAliveInterval st"
proof (cases i)
  case (Message ws' e m)
  then show ?thesis using on_message_frame [of ws' e m st st' out] assms(2) by simp
qed (use assms in \<open>auto split: if_splits\<close>)

lemma quiet_run:
  assumes "list_all (quiet ws) is" "run is st = Some st'"
  shows "isAlive st' ws = isAlive st ws \<and>
         (ws \<in> set (clients st') \<longleftrightarrow> ws \<in> set (clients st)) \<and>
         totalUptime st' = totalUptime st \<and>
         keepAliveInterval st' = keepAliveInterval st"
  using assms
proof (induction "is" arbitrary: st)
  case Nil
  then show ?case by simp
next
  case (Cons i "is")
  from Cons.prems(2) obtain st1 out where s: "step i st = Some (st1, out)" and r: "run is st1 = Some st'"
    by (auto split: option.splits)
  from Cons.prems(1) have q: "quiet ws i" "list_all (quiet ws) is" by simp_all
  show ?case using Cons.IH [OF q(2) r] quiet_frame [OF q(1) s] by simp
qed

lemma probe_keeps_dead: "\<not> isAlive (fst acc) ws \<Longrightarrow> \<not> isAlive (fst (probe ws' acc)) ws"
  by (cases acc) (simp add: probe_def terminate_ws_def)

lemma fold_probe_keeps_dead:
  "\<not> isAlive (fst acc) ws \<Longrightarrow> \<not> isAlive (fst (fold probe xs acc)) ws"
  by (induction xs arbitrary: acc) (simp_all add: probe_keeps_dead)

lemma probe_marks: "\<not> isAlive (fst (probe ws acc)) ws"
  by (cases acc) (simp add: probe_def terminate_ws_def)

lemma fold_probe_marks: "ws \<in> set xs \<Longrightarrow> \<not> isAlive (fst (fold probe xs acc)) ws"
proof (induction xs arbitrary: acc)
  case Nil
  then show ?case by simp
next
  case (Cons x xs)
  show ?case
  proof (cases "x = ws")
    case True
    then show ?thesis
      using fold_probe_keeps_dead [of "probe ws acc" ws xs] probe_marks [of ws acc] by simp
  next
    case False
    then show ?thesis using Cons by simp
  qed
qed

lemma probe_effects_grow: "set (snd acc) \<subseteq> set (snd (probe ws acc))"
  by (cases acc) (auto simp: probe_def)

lemma fold_probe_effects_grow: "set (snd acc) \<subseteq> set (snd (fold probe xs acc))"
proof (induction xs arbitrary: acc)
  case Nil
  show ?case by simp
next
  case (Cons x xs)
  show ?case using Cons [of "probe x acc"] probe_effects_grow [of acc x] by auto
qed

lemma probe_terminates: "\<not> isAlive (fst acc) ws \<Longrightarrow> Terminate ws \<in> set (snd (probe ws acc))"
  by (cases acc) (simp add: probe_def)

lemma fold_probe_terminates:
  "ws \<in> set xs \<Longrightarrow> \<not> isAlive (fst acc) ws \<Longrightarrow> Terminate ws \<in> set (snd (fold probe xs acc))"
proof (induction xs arbitrary: acc)
  case Nil
  then show ?case by simp
next
  case (Cons x xs)
  show ?case
  proof (cases "x = ws")
    case True
    then show ?thesis
      using probe_terminates [OF Cons.prems(2)] fold_probe_effects_grow [of "probe ws acc" xs] by auto
  next
    case False
    then show ?thesis using Cons probe_keeps_dead [OF Cons.prems(2), of x] by simp
  qed
qed

lemma close_ws_keeps_closed: "readyState st ws \<noteq> OPEN \<Longrightarrow> readyState (close_ws ws' st) ws \<noteq> OPEN"
  by (simp add: close_ws_def)

lemma fold_close_keeps_closed:
  "readyState st ws \<noteq> OPEN \<Longrightarrow> readyState (fold close_ws xs st) ws \<noteq> OPEN"
  by (induction xs arbitrary: st) (simp_all add: close_ws_keeps_closed)

lemma fold_close_closes: "ws \<in> set xs \<Longrightarrow> readyState (fold close_ws xs st) ws \<noteq> OPEN"
proof (induction xs arbitrary: st)
  case Nil
  then show ?case by simp
next
  case (Cons x xs)
  show ?case
  proof (cases "x = ws")
    case True
    have "readyState (close_ws ws st) ws \<noteq> OPEN" by (simp add: close_ws_def)
    then show ?thesis using True fold_close_keeps_closed by simp
  next
    case False
    then show ?thesis using Cons by simp
  qed
qed

lemma tick_probing:
  assumes "keepAliveInterval st" "totalUptime st + KEEP_ALIVE_INTERVAL < MAX_DURATION"
  shows "on_tick st = fold probe (clients st) (st\<lparr>totalUptime := totalUptime st + KEEP_ALIVE_INTERVAL\<rparr>, [])"
  using assms by (simp add: on_tick_def Let_def)

lemma tick_shutdown:
  assumes "keepAliveInterval st" "MAX_DURATION \<le> totalUptime st + KEEP_ALIVE_INTERVAL"
  shows "on_tick st =
           ((fold close_ws (clients st) (st\<lparr>totalUptime := totalUptime st + KEEP_ALIVE_INTERVAL\<rparr>))
              \<lparr>keepAliveInterval := False\<rparr>, map Close (clients st))"
  using assms by (simp add: on_tick_def Let_def)

lemma tick_stopped: "\<not> keepAliveInterval st \<Longrightarrow> on_tick st = (st, [])"
  by (simp add: on_tick_def)

lemma effects_two_ticks:
  assumes "run is (fst (on_tick st)) = Some st2"
  shows "effects (Tick # is @ [Tick]) st
           = snd (on_tick st) @ effects is (fst (on_tick st)) @ snd (on_tick st2)"
  using assms by (simp add: split_beta effects_append)

lemma two_ticks_terminate:
  assumes "keepAliveInterval st" "totalUptime st + 2 * KEEP_ALIVE_INTERVAL < MAX_DURATION"
    "ws \<in> set (clients st)" "list_all (quiet ws) is" "run (Tick # is) st \<noteq> None"
  shows "Terminate ws \<in> set (effects (Tick # is @ [Tick]) st)"
proof -
  let ?st0 = "st\<lparr>totalUptime := totalUptime st + KEEP_ALIVE_INTERVAL\<rparr>"
  let ?st1 = "fst (on_tick st)"
  from assms(5) obtain st2 where st2: "run is ?st1 = Some st2"
    by (auto simp: split_beta)
  have up: "totalUptime st + KEEP_ALIVE_INTERVAL < MAX_DURATION" using assms(2) by simp
  have t1: "on_tick st = fold probe (clients st) (?st0, [])"
    by (rule tick_probing [OF assms(1) up])
  have dead1: "\<not> isAlive ?st1 ws"
    unfolding t1 by (rule fold_probe_marks [OF assms(3)])
  have f1: "clients ?st1 = clients st" "totalUptime ?st1 = totalUptime st + KEEP_ALIVE_INTERVAL"
    "keepAliveInterval ?st1"
    unfolding t1 using assms(1) by (simp_all add: fold_probe_fields)
  from quiet_run [OF assms(4) st2]
  have f2: "\<not> isAlive st2 ws" "ws \<in> set (clients st2)"
    "totalUptime st2 = totalUptime st + KEEP_ALIVE_INTERVAL" "keepAliveInterval st2"
    using dead1 f1 assms(3) by simp_all
  have up2: "totalUptime st2 + KEEP_ALIVE_INTERVAL < MAX_DURATION" using f2(3) assms(2) by simp
  have "Terminate ws \<in> set (snd (on_tick st2))"
    unfolding tick_probing [OF f2(4) up2]
    by (rule fold_probe_terminates [OF f2(2)]) (simp add: f2(1))
  then show ?thesis unfolding effects_two_ticks [OF st2] by simp
qed

lemma stopped_step:
  assumes "\<not> keepAliveInterval st" "step i st = Some (st', out)"
  shows "\<not> keepAliveInterval st' \<and> (\<forall>eff \<in> set out. \<not> is_probe eff)"
proof (cases i)
  case (Message ws e m)
  then show ?thesis
    using assms on_message_frame [of ws e m st st' out] on_message_no_probe [of ws e m st st' out]
    by auto
next
  case Tick
  then show ?thesis using assms by (auto simp: tick_stopped)
qed (use assms in auto)

lemma stopped_run:
  assumes "\<not> keepAliveInterval st"
  shows "(\<forall>st'. run is st = Some st' \<longrightarrow> \<not> keepAliveInterval st') \<and>
         (\<forall>eff \<in> set (effects is st). \<not> is_probe eff)"
  using assms
proof (induction "is" arbitrary: st)
  case Nil
  then show ?case by simp
next
  case (Cons i "is")
  show ?case
  proof (cases "step i st")
    case None
    then show ?thesis by simp
  next
    case (Some r)
    obtain st1 out where r: "r = (st1, out)" by (cases r)
    from stopped_step [OF Cons.prems, of i st1 out] Some r
    have a: "\<not> keepAliveInterval st1" "\<forall>eff \<in> set out. \<not> is_probe eff"
      by simp_all
    from Cons.IH [OF a(1)] a(2) Some r show ?thesis by auto
  qed
qed

lemma non_tick_frame:
  "i \<noteq> Tick \<Longrightarrow> step i st = Some (st', out) \<Longrightarrow>
     totalUptime st' = totalUptime st \<and> keepAliveInterval st' = keepAliveInterval st"
  using on_message_frame by (cases i) auto

lemma uptime_of_run:
  "run ks init = Some st \<Longrightarrow>
     totalUptime st = KEEP_ALIVE_INTERVAL * min 120 (count_list ks Tick) \<and>
     keepAliveInterval st = (count_list ks Tick < 120)"
proof (induction ks arbitrary: st rule: rev_induct)
  case Nil
  then show ?case by (auto simp: init_def)
next
  case (snoc i ks)
  from snoc.prems obtain st0 out where
    r0: "run ks init = Some st0" and s: "step i st0 = Some (st, out)"
    by (auto simp: run_append split: option.splits)
  note ih = snoc.IH [OF r0]
  show ?case
  proof (cases "i = Tick")
    case False
    then show ?thesis using ih non_tick_frame [OF False s] by simp
  next
    case True
    then have st: "st = fst (on_tick st0)" using s by auto
    show ?thesis
    proof (cases "count_list ks Tick < 120")
      case False
      then have "\<not> keepAliveInterval st0" using ih by simp
      then show ?thesis using ih False True unfolding st by (simp add: tick_stopped)
    next
      case less: True
      then have k: "keepAliveInterval st0" and u: "totalUptime st0 = KEEP_ALIVE_INTERVAL * count_list ks Tick"
        using ih by simp_all
      show ?thesis
      proof (cases "count_list ks Tick = 119")
        case True
        then have "MAX_DURATION \<le> totalUptime st0 + KEEP_ALIVE_INTERVAL"
          using u by (simp add: KEEP_ALIVE_INTERVAL_def MAX_DURATION_def)
        from tick_shutdown [OF k this] show ?thesis
          using \<open>i = Tick\<close> True u unfolding st
          by (simp add: fold_close_ws_fields KEEP_ALIVE_INTERVAL_def)
      next
        case False
        then have c: "count_list ks Tick < 119" using less by simp
        then have "totalUptime st0 + KEEP_ALIVE_INTERVAL < MAX_DURATION"
          using u by (simp add: KEEP_ALIVE_INTERVAL_def MAX_DURATION_def)
        from tick_probing [OF k this] show ?thesis
          using \<open>i = Tick\<close> c u k unfolding st
          by (simp add: fold_probe_fields KEEP_ALIVE_INTERVAL_def)
      qed
    qed
  qed
qed

lemma two_ticks_terminate_or_close:
  assumes "keepAliveInterval st" "ws \<in> set (clients st)" "list_all (quiet ws) is"
    "run (Tick # is) st \<noteq> None"
  shows "Terminate ws \<in> set (effects (Tick # is @ [Tick]) st) \<or>
         Close ws \<in> set (effects (Tick # is @ [Tick]) st)"
proof (cases "totalUptime st + KEEP_ALIVE_INTERVAL < MAX_DURATION")
  case False
  then have "MAX_DURATION \<le> totalUptime st + KEEP_ALIVE_INTERVAL" by simp
  from tick_shutdown [OF assms(1) this] assms(2) show ?thesis by (simp add: split_beta)
next
  case True
  let ?st1 = "fst (on_tick st)"
  from assms(4) obtain st2 where st2: "run is ?st1 = Some st2"
    by (auto simp: split_beta)
  have f1: "clients ?st1 = clients st" "totalUptime ?st1 = totalUptime st + KEEP_ALIVE_INTERVAL"
    "keepAliveInterval ?st1"
    unfolding tick_probing [OF assms(1) True] using assms(1) by (simp_all add: fold_probe_fields)
  from quiet_run [OF assms(3) st2]
  have f2: "ws \<in> set (clients st2)"
    "totalUptime st2 = totalUptime st + KEEP_ALIVE_INTERVAL" "keepAliveInterval st2"
    using f1 assms(2) by simp_all
  show ?thesis
  proof (cases "totalUptime st + 2 * KEEP_ALIVE_INTERVAL < MAX_DURATION")
    case True
    then show ?thesis using two_ticks_terminate [OF assms(1) True assms(2,3,4)] by simp
  next
    case False
    then have "MAX_DURATION \<le> totalUptime st2 + KEEP_ALIVE_INTERVAL" using f2(2) by simp
    from tick_shutdown [OF f2(3) this] f2(1)
    have "Close ws \<in> set (snd (on_tick st2))" by simp
    then show ?thesis unfolding effects_two_ticks [OF st2] by simp
  qed
qed

lemma close_students_keeps_closed:
  "readyState st w \<noteq> OPEN \<Longrightarrow> readyState (fst (close_students s st)) w \<noteq> OPEN"
proof -
  have "readyState st w \<noteq> OPEN \<Longrightarrow> readyState (fold (\<lambda>stu. close_ws (stu_ws stu)) xs st) w \<noteq> OPEN"
    for xs :: "student list" and st
    by (induction xs arbitrary: st) (simp_all add: close_ws_keeps_closed)
  then show "readyState st w \<noteq> OPEN \<Longrightarrow> readyState (fst (close_students s st)) w \<noteq> OPEN"
    by (simp add: close_students_def)
qed

lemma on_message_keeps_closed:
  assumes "readyState st w \<noteq> OPEN" "on_message ws e m st = Some (st', out)"
  shows "readyState st' w \<noteq> OPEN"
proof (cases m)
  case (TEACHER_STOP_QUIZ c)
  show ?thesis
  proof (cases "sessions st c")
    case None
    then show ?thesis using assms TEACHER_STOP_QUIZ
      by (auto simp: on_TEACHER_STOP_QUIZ_def split: if_splits)
  next
    case (Some s)
    have "readyState (st\<lparr>sessions := (sessions st)(c \<mapsto> s\<lparr>stage := STOPPED\<rparr>)\<rparr>) w \<noteq> OPEN"
      using assms(1) by simp
    from close_students_keeps_closed [OF this, of "s\<lparr>stage := STOPPED\<rparr>"]
    show ?thesis using assms(2) TEACHER_STOP_QUIZ stop_own [OF Some] by auto
  qed
next
  case (TEACHER_CLOSE_PAGE c)
  show ?thesis
  proof (cases "sessions st c")
    case None
    then show ?thesis using assms TEACHER_CLOSE_PAGE
      by (auto simp: on_TEACHER_CLOSE_PAGE_def split: if_splits)
  next
    case (Some s)
    have "readyState (st\<lparr>sessions := (sessions st)(c \<mapsto> s\<lparr>stage := STOPPED\<rparr>)\<rparr>) w \<noteq> OPEN"
      using assms(1) by simp
    from close_students_keeps_closed [OF this, of "s\<lparr>stage := STOPPED\<rparr>"]
    show ?thesis using assms(2) TEACHER_CLOSE_PAGE close_page_own [OF Some] by auto
  qed
qed (use assms in \<open>auto simp: on_TEACHER_CREATE_SESSION_def on_TEACHER_START_MCQ_def
      on_TEACHER_NEXT_EXPLANATION_def on_TEACHER_DOWNLOAD_CSV_def on_TEACHER_REJOIN_SESSION_def
      on_STUDENT_JOIN_SESSION_def on_STUDENT_SUBMIT_MCQ_def on_STUDENT_EXPLANATION_UPDATE_def Let_def
      split: option.splits if_splits inherited.splits\<close>)

lemma probe_keeps_closed: "readyState (fst acc) w \<noteq> OPEN \<Longrightarrow> readyState (fst (probe ws acc)) w \<noteq> OPEN"
  by (cases acc) (simp add: probe_def terminate_ws_def)

lemma fold_probe_keeps_closed:
  "readyState (fst acc) w \<noteq> OPEN \<Longrightarrow> readyState (fst (fold probe xs acc)) w \<noteq> OPEN"
  by (induction xs arbitrary: acc) (simp_all add: probe_keeps_closed)

lemma on_tick_keeps_closed:
  assumes "readyState st w \<noteq> OPEN" shows "readyState (fst (on_tick st)) w \<noteq> OPEN"
  using assms fold_close_keeps_closed [of "st\<lparr>totalUptime := totalUptime st + KEEP_ALIVE_INTERVAL\<rparr>" w]
    fold_probe_keeps_closed [of "(st\<lparr>totalUptime := totalUptime st + KEEP_ALIVE_INTERVAL\<rparr>, [])" w]
  by (simp add: on_tick_def Let_def)

lemma open_clients_step:
  assumes "\<forall>w. readyState st w = OPEN \<longrightarrow> w \<in> set (clients st)" "step i st = Some (st', out)"
  shows "\<forall>w. readyState st' w = OPEN \<longrightarrow> w \<in> set (clients st')"
proof (cases i)
  case (Connection ws)
  then show ?thesis using assms by (auto split: if_splits)
next
  case (Message ws e m)
  then show ?thesis
    using assms on_message_keeps_closed [of st _ ws e m st' out] on_message_frame [of ws e m st st' out]
    by auto
next
  case (Pong ws)
  then show ?thesis using assms by auto
next
  case (CloseEvent ws)
  then show ?thesis using assms by (auto split: if_splits)
next
  case Tick
  have "clients (fst (on_tick st)) = clients st"
    by (simp add: on_tick_def Let_def fold_close_ws_fields fold_probe_fields)
  then show ?thesis using Tick assms on_tick_keeps_closed [of st] by auto
qed

lemma reachable_open_clients: "reachable st \<Longrightarrow> readyState st w = OPEN \<Longrightarrow> w \<in> set (clients st)"
proof (induction arbitrary: w rule: reachable.induct)
  case reachable_init
  then show ?case by (simp add: init_def)
next
  case (reachable_step st i st' out)
  then show ?case using open_clients_step [of st i st' out] by blast
qed

text \<open>
  C9. Time is the count of timer ticks: every run of the timer callback adds
  \<open>KEEP_ALIVE_INTERVAL\<close> to \<open>totalUptime\<close>, and the maximum is 120 intervals.
  (1) While the timer runs, a registered connection from which no pong arrives between two
  consecutive ticks is terminated at the latest by the second of them (its other inputs do
  not matter, as long as no handler throws on them and ends the process before the second
  tick); if the shutdown falls on one of the two ticks the connection is closed by it
  instead. (2) The tick on which the accumulated uptime reaches \<open>MAX_DURATION\<close> calls
  \<open>close\<close> on every registered connection and does nothing else, leaves no connection
  open, and clears the timer. (3) Once the timer is cleared a further tick does nothing, the
  timer stays cleared whatever arrives, and no ping or terminate is ever issued again.
  (4) From the initial state the uptime is the number of ticks times the interval, up to
  120 ticks, and the timer is running exactly as long as fewer than 120 ticks have occurred.
\<close>

theorem liveness_supervisor:
  "(keepAliveInterval st \<and> ws \<in> set (clients st) \<and> list_all (quiet ws) is \<and>
    run (Tick # is) st \<noteq> None \<longrightarrow>
      (Terminate ws \<in> set (effects (Tick # is @ [Tick]) st) \<or>
       Close ws \<in> set (effects (Tick # is @ [Tick]) st)) \<and>
      (totalUptime st + 2 * KEEP_ALIVE_INTERVAL < MAX_DURATION \<longrightarrow>
         Terminate ws \<in> set (effects (Tick # is @ [Tick]) st))) \<and>
   (keepAliveInterval st \<and> MAX_DURATION \<le> totalUptime st + KEEP_ALIVE_INTERVAL \<longrightarrow>
      (\<exists>st'. step Tick st = Some (st', map Close (clients st)) \<and>
         (\<forall>ws' \<in> set (clients st). readyState st' ws' \<noteq> OPEN) \<and>
         \<not> keepAliveInterval st' \<and>
         (reachable st \<longrightarrow> (\<forall>w. readyState st' w \<noteq> OPEN)))) \<and>
   (\<not> keepAliveInterval st \<longrightarrow>
      step Tick st = Some (st, []) \<and>
      (\<forall>st'. run js st = Some st' \<longrightarrow> \<not> keepAliveInterval st') \<and>
      (\<forall>eff \<in> set (effects js st). \<not> is_probe eff)) \<and>
   (\<forall>st'. run ks init = Some st' \<longrightarrow>
      totalUptime st' = KEEP_ALIVE_INTERVAL * min 120 (count_list ks Tick) \<and>
      keepAliveInterval st' = (count_list ks Tick < 120)) \<and>
   MAX_DURATION = 120 * KEEP_ALIVE_INTERVAL"
proof -
  have a: "(Terminate ws \<in> set (effects (Tick # is @ [Tick]) st) \<or>
       Close ws \<in> set (effects (Tick # is @ [Tick]) st)) \<and>
      (totalUptime st + 2 * KEEP_ALIVE_INTERVAL < MAX_DURATION \<longrightarrow>
         Terminate ws \<in> set (effects (Tick # is @ [Tick]) st))"
    if "keepAliveInterval st" "ws \<in> set (clients st)" "list_all (quiet ws) is"
      "run (Tick # is) st \<noteq> None"
    using two_ticks_terminate_or_close [OF that] two_ticks_terminate [OF that(1) _ that(2,3,4)] by blast
  let ?st' = "fst (on_tick st)"
  have b0: "step Tick st = Some (?st', map Close (clients st)) \<and>
      (\<forall>ws' \<in> set (clients st). readyState ?st' ws' \<noteq> OPEN) \<and>
      \<not> keepAliveInterval ?st'"
    if "keepAliveInterval st" "MAX_DURATION \<le> totalUptime st + KEEP_ALIVE_INTERVAL"
    using tick_shutdown [OF that] fold_close_closes by simp
  have b1: "readyState ?st' w \<noteq> OPEN"
    if "keepAliveInterval st" "MAX_DURATION \<le> totalUptime st + KEEP_ALIVE_INTERVAL" "reachable st" for w
  proof (cases "readyState st w = OPEN")
    case True
    then have "w \<in> set (clients st)" by (rule reachable_open_clients [OF that(3)])
    then show ?thesis using b0 [OF that(1,2)] by blast
  next
    case False
    then show ?thesis using on_tick_keeps_closed [of st w] by simp
  qed
  have b: "\<exists>st'. step Tick st = Some (st', map Close (clients st)) \<and>
         (\<forall>ws' \<in> set (clients st). readyState st' ws' \<noteq> OPEN) \<and>
         \<not> keepAliveInterval st' \<and>
         (reachable st \<longrightarrow> (\<forall>w. readyState st' w \<noteq> OPEN))"
    if "keepAliveInterval st" "MAX_DURATION \<le> totalUptime st + KEEP_ALIVE_INTERVAL"
    using b0 [OF that] b1 [OF that] by (intro exI [of _ ?st']) blast
  have c: "step Tick st = Some (st, []) \<and>
      (\<forall>st'. run js st = Some st' \<longrightarrow> \<not> keepAliveInterval st') \<and>
      (\<forall>eff \<in> set (effects js st). \<not> is_probe eff)"
    if "\<not> keepAliveInterval st"
    using tick_stopped [OF that] stopped_run [OF that, of js] by simp
  have d: "MAX_DURATION = 120 * KEEP_ALIVE_INTERVAL"
    by (simp add: MAX_DURATION_def KEEP_ALIVE_INTERVAL_def)
  have u: "\<forall>st'. run ks init = Some st' \<longrightarrow>
      totalUptime st' = KEEP_ALIVE_INTERVAL * min 120 (count_list ks Tick) \<and>
      keepAliveInterval st' = (count_list ks Tick < 120)"
    using uptime_of_run [of ks] by blast
  show ?thesis using a b c d u by blast
qed

theorem liveness_supervisor_witness:
  "keepAliveInterval (after run_two_clients) \<and> 1 \<in> set (clients (after run_two_clients)) \<and>
   list_all (quiet 1) [Pong 0] \<and>
   run (Tick # [Pong 0]) (after run_two_clients) \<noteq> None \<and>
   effects (Tick # [Pong 0] @ [Tick]) (after run_two_clients) = [Ping 0, Ping 1, Ping 0, Terminate 1] \<and>
   snd (the (step Tick (init\<lparr>clients := [7], totalUptime := 3570000\<rparr>))) = [Close 7] \<and>
   \<not> keepAliveInterval (fst (the (step Tick (init\<lparr>clients := [7], totalUptime := 3570000\<rparr>)))) \<and>
   run [Tick, Pong 0, Tick] init \<noteq> None \<and>
   totalUptime (after [Tick, Pong 0, Tick]) = 60000"
proof -
  have e: "effects (Tick # [Pong 0] @ [Tick]) (after run_two_clients) = [Ping 0, Ping 1, Ping 0, Terminate 1]"
    "run (Tick # [Pong 0]) (after run_two_clients) \<noteq> None"
    by (simp_all add: after_def run_two_clients_def init_def on_tick_def probe_def terminate_ws_def
        KEEP_ALIVE_INTERVAL_def MAX_DURATION_def Let_def)
  have r: "run [Tick, Pong 0, Tick] init = Some (after [Tick, Pong 0, Tick])"
    by (simp add: after_def init_def on_tick_def probe_def terminate_ws_def
        KEEP_ALIVE_INTERVAL_def MAX_DURATION_def Let_def)
  have u: "totalUptime (after [Tick, Pong 0, Tick]) = 60000"
    using r liveness_supervisor [of "after run_two_clients" 1 "[Pong 0]" "[]" "[Tick, Pong 0, Tick]"]
    by (simp add: KEEP_ALIVE_INTERVAL_def)
  have s: "snd (the (step Tick (init\<lparr>clients := [7], totalUptime := 3570000\<rparr>))) = [Close 7] \<and>
   \<not> keepAliveInterval (fst (the (step Tick (init\<lparr>clients := [7], totalUptime := 3570000\<rparr>))))"
    using liveness_supervisor [of "init\<lparr>clients := [7], totalUptime := 3570000\<rparr>" 7 "[]" "[]" "[]"]
    by (simp add: init_def on_tick_def close_ws_def KEEP_ALIVE_INTERVAL_def MAX_DURATION_def Let_def)
  have k: "keepAliveInterval (after run_two_clients) \<and> 1 \<in> set (clients (after run_two_clients)) \<and>
   list_all (quiet 1) [Pong 0]"
    by (simp add: after_def run_two_clients_def init_def)
  show ?thesis using e r u s k by simp
qed

end
